theory Spec2Isabelle
  imports Main "HOL-Library.Word" "HOL-Library.List_Lexorder"
begin

unbundle bit_operations_syntax

section \<open>Go values\<close>

text \<open>
  A Go \<^verbatim>\<open>[]byte\<close> is a list of 8-bit words, a \<^verbatim>\<open>uint64\<close> a 64-bit word (\<open>+\<close> and
  \<open>-\<close> wrap, \<open><\<close> is the unsigned comparison). \<^verbatim>\<open>bytes.Compare\<close> is the
  lexicographic order of byte lists, which is the order \<open><\<close> of lists over the
  unsigned order of bytes. A Go \<^verbatim>\<open>string\<close> is a byte sequence as well and is
  modelled by \<open>string\<close>; an \<^verbatim>\<open>error\<close> made by \<^verbatim>\<open>errors.New\<close> is its message, and a
  \<^verbatim>\<open>nil\<close> error is \<open>None\<close>. A run-time panic (index out of range, slice bounds
  out of range, nil dereference) is the outcome \<open>Panic\<close>.
\<close>

type_synonym byte = "8 word"
type_synonym bytes = "byte list"
type_synonym uint64 = "64 word"
type_synonym error = string

datatype panic = IndexOutOfRange | SliceBoundsOutOfRange | NilDereference

datatype 'a go = Ret 'a | Panic panic

definition replyOK :: string where
  "replyOK = ''ok''"

definition replyNotFound :: string where
  "replyNotFound = ''not_found''"

definition replyError :: string where
  "replyError = ''error''"

definition replyClientError :: string where
  "replyClientError = ''client_error''"

definition bucketNotFound :: string where
  "bucketNotFound = ''bucket_not_found''"

definition keyNotFound :: string where
  "keyNotFound = ''key_not_found''"

definition scoreMin :: uint64 where
  "scoreMin = 0"

definition scoreMax :: uint64 where
  "scoreMax = 18446744073709551615"

definition hashPrefix :: bytes where
  "hashPrefix = [30]"

definition zetKeyPrefix :: bytes where
  "zetKeyPrefix = [31]"

definition zetScorePrefix :: bytes where
  "zetScorePrefix = [29]"

record Reply =
  State :: string
  Data :: "bytes list"

record Entry =
  Key :: bytes
  Value :: bytes

definition bytes_Compare :: "bytes \<Rightarrow> bytes \<Rightarrow> int" where
  "bytes_Compare a b = (if a < b then - 1 else if a = b then 0 else 1)"

section \<open>Byte codec\<close>

definition S2b :: "string \<Rightarrow> bytes" where
  "S2b s = map of_char s"

definition B2s :: "bytes \<Rightarrow> string" where
  "B2s b = map (\<lambda>x. char_of (unat x)) b"

definition Bconcat :: "bytes list \<Rightarrow> bytes" where
  "Bconcat slices = concat slices"

text \<open>\<^verbatim>\<open>binary.BigEndian.PutUint64\<close> on a fresh 8-byte slice.\<close>

definition I2b :: "uint64 \<Rightarrow> bytes" where
  "I2b v = [ucast (drop_bit 56 v), ucast (drop_bit 48 v), ucast (drop_bit 40 v),
     ucast (drop_bit 32 v), ucast (drop_bit 24 v), ucast (drop_bit 16 v),
     ucast (drop_bit 8 v), ucast v]"

text \<open>
  \<^verbatim>\<open>binary.BigEndian.Uint64\<close> starts with the bounds check \<^verbatim>\<open>_ = b[7]\<close>, which
  panics on fewer than 8 bytes, and then reads the first 8 bytes.
\<close>

definition be_uint64 :: "bytes \<Rightarrow> uint64" where
  "be_uint64 b = ucast (b ! 7) OR push_bit 8 (ucast (b ! 6)) OR push_bit 16 (ucast (b ! 5))
       OR push_bit 24 (ucast (b ! 4)) OR push_bit 32 (ucast (b ! 3))
       OR push_bit 40 (ucast (b ! 2)) OR push_bit 48 (ucast (b ! 1))
       OR push_bit 56 (ucast (b ! 0))"

definition BigEndian_Uint64 :: "bytes \<Rightarrow> uint64 go" where
  "BigEndian_Uint64 b = (if length b < 8 then Panic IndexOutOfRange else Ret (be_uint64 b))"

definition B2i :: "bytes \<Rightarrow> uint64 go" where
  "B2i v = BigEndian_Uint64 v"

section \<open>The storage engine\<close>

text \<open>
  The engine (\<^verbatim>\<open>github.com/boltdb/bolt\<close>) is an external dependency. Its primitives are
  modelled after the engine's documented behaviour, on an open database whose
  transactions begin and commit without input/output failure:
  \<^item> a database is a set of named buckets; a bucket holds key/value pairs in ascending
    byte order of the keys, so a bucket is a list of pairs sorted by key;
  \<^item> \<^verbatim>\<open>Tx.Bucket\<close> returns \<^verbatim>\<open>nil\<close> for a bucket that does not exist;
    \<^verbatim>\<open>Tx.CreateBucketIfNotExists\<close> fails on an empty name only;
    \<^verbatim>\<open>Tx.DeleteBucket\<close> returns \<^verbatim>\<open>ErrBucketNotFound\<close> for a bucket that does not exist;
  \<^item> \<^verbatim>\<open>Bucket.Get\<close> returns \<^verbatim>\<open>nil\<close> exactly for an absent key; a stored empty value
    is read back as an empty, non-nil slice. The byte slices given to \<^verbatim>\<open>Put\<close> are taken
    to be non-nil: the model does not cover a \<^verbatim>\<open>nil\<close> value that is put and read
    back inside one transaction, which the engine returns as \<^verbatim>\<open>nil\<close>; this can only
    happen in a \<^verbatim>\<open>Zmset\<close> call that gives one member twice, first with a \<^verbatim>\<open>nil\<close>
    score, and every theorem about \<^verbatim>\<open>Zmset\<close> below is about non-empty scores.
    \<^verbatim>\<open>Bucket.Put\<close> fails on an empty key,
    on a key of more than \<^verbatim>\<open>MaxKeySize\<close> bytes and on a value of more than
    \<^verbatim>\<open>MaxValueSize\<close> bytes; \<^verbatim>\<open>Bucket.Delete\<close> of an absent key does nothing and
    returns \<^verbatim>\<open>nil\<close>;
  \<^item> \<^verbatim>\<open>DB.Update\<close> commits when the function returns \<^verbatim>\<open>nil\<close> and rolls back,
    returning the error, otherwise; a panic inside rolls back and propagates;
  \<^item> \<^verbatim>\<open>Cursor.Seek\<close> moves to the first key greater than or equal to the given one
    and returns a \<^verbatim>\<open>nil\<close> key when there is none; \<^verbatim>\<open>Next\<close>, \<^verbatim>\<open>Prev\<close> and \<^verbatim>\<open>Last\<close>
    move by one pair and return a \<^verbatim>\<open>nil\<close> key beyond either end.
  Inside a transaction the state is threaded explicitly: a bucket handle is the
  bucket's name, and every write returns the new transaction state.
\<close>

type_synonym bucket = "(bytes \<times> bytes) list"
type_synonym DB = "bytes \<Rightarrow> bucket option"

definition ErrBucketNotFound :: error where
  "ErrBucketNotFound = ''bucket not found''"

definition ErrBucketNameRequired :: error where
  "ErrBucketNameRequired = ''bucket name required''"

definition ErrKeyRequired :: error where
  "ErrKeyRequired = ''key required''"

definition ErrKeyTooLarge :: error where
  "ErrKeyTooLarge = ''key too large''"

definition ErrValueTooLarge :: error where
  "ErrValueTooLarge = ''value too large''"

definition MaxKeySize :: nat where
  "MaxKeySize = 32768"

definition MaxValueSize :: nat where
  "MaxValueSize = 2147483646"

text \<open>Insertion (or replacement) and removal of a key in a sorted bucket.\<close>

fun put_kv :: "bytes \<Rightarrow> bytes \<Rightarrow> bucket \<Rightarrow> bucket" where
  "put_kv k v [] = [(k, v)]"
| "put_kv k v ((k', v') # r) =
     (if k < k' then (k, v) # (k', v') # r
      else if k = k' then (k, v) # r
      else (k', v') # put_kv k v r)"

fun del_k :: "bytes \<Rightarrow> bucket \<Rightarrow> bucket" where
  "del_k k [] = []"
| "del_k k ((k', v') # r) = (if k = k' then r else (k', v') # del_k k r)"

definition tx_Bucket :: "DB \<Rightarrow> bytes \<Rightarrow> bucket option" where
  "tx_Bucket tx name = tx name"

definition tx_CreateBucketIfNotExists :: "DB \<Rightarrow> bytes \<Rightarrow> error + DB" where
  "tx_CreateBucketIfNotExists tx name =
     (if name = [] then Inl ErrBucketNameRequired
      else case tx name of None \<Rightarrow> Inr (tx(name \<mapsto> [])) | Some b \<Rightarrow> Inr tx)"

definition tx_DeleteBucket :: "DB \<Rightarrow> bytes \<Rightarrow> error + DB" where
  "tx_DeleteBucket tx name =
     (case tx name of None \<Rightarrow> Inl ErrBucketNotFound | Some b \<Rightarrow> Inr (tx(name := None)))"

text \<open>
  The pairs behind a bucket handle. The source uses a handle only after
  \<^verbatim>\<open>CreateBucketIfNotExists\<close> or a \<^verbatim>\<open>nil\<close> test, that is on a bucket that exists; for
  a name without bucket the pairs are taken as empty.
\<close>

definition contents :: "DB \<Rightarrow> bytes \<Rightarrow> bucket" where
  "contents tx name = (case tx name of None \<Rightarrow> [] | Some b \<Rightarrow> b)"

definition b_Get :: "DB \<Rightarrow> bytes \<Rightarrow> bytes \<Rightarrow> bytes option" where
  "b_Get tx name key = map_of (contents tx name) key"

definition b_Put :: "DB \<Rightarrow> bytes \<Rightarrow> bytes \<Rightarrow> bytes \<Rightarrow> error + DB" where
  "b_Put tx name key val =
     (if length key = 0 then Inl ErrKeyRequired
      else if length key > MaxKeySize then Inl ErrKeyTooLarge
      else if length val > MaxValueSize then Inl ErrValueTooLarge
      else Inr (tx(name \<mapsto> put_kv key val (contents tx name))))"

definition b_Delete :: "DB \<Rightarrow> bytes \<Rightarrow> bytes \<Rightarrow> error + DB" where
  "b_Delete tx name key = Inr (tx(name \<mapsto> del_k key (contents tx name)))"

definition Update :: "DB \<Rightarrow> (DB \<Rightarrow> error + DB) \<Rightarrow> DB \<times> error option" where
  "Update db fn = (case fn db of Inl e \<Rightarrow> (db, Some e) | Inr db' \<Rightarrow> (db', None))"

text \<open>
  A cursor loop \<^verbatim>\<open>for k, v := first; k != nil; k, v = c.Next()\<close> visits a sequence of
  pairs, in order, until the loop breaks. The three ways the source positions and moves
  a cursor give these sequences:
  \<^item> \<^verbatim>\<open>c.Seek(x)\<close>, then \<^verbatim>\<open>c.Next()\<close>: the pairs with a key not below \<open>x\<close>, ascending;
  \<^item> \<^verbatim>\<open>c.Seek(x)\<close>, then \<^verbatim>\<open>c.Prev()\<close>: the first pair with a key not below \<open>x\<close> and
    then the pairs before it, descending; nothing when no key is at or above \<open>x\<close>,
    because \<^verbatim>\<open>Seek\<close> then returns a \<^verbatim>\<open>nil\<close> key and the loop does not start;
  \<^item> \<^verbatim>\<open>c.Last()\<close>, then \<^verbatim>\<open>c.Prev()\<close>: all pairs, descending.
\<close>

definition Seek_then_Next :: "bucket \<Rightarrow> bytes \<Rightarrow> (bytes \<times> bytes) list" where
  "Seek_then_Next b x = dropWhile (\<lambda>kv. fst kv < x) b"

definition Seek_then_Prev :: "bucket \<Rightarrow> bytes \<Rightarrow> (bytes \<times> bytes) list" where
  "Seek_then_Prev b x =
     (case dropWhile (\<lambda>kv. fst kv < x) b of
        [] \<Rightarrow> []
      | e # later \<Rightarrow> e # rev (takeWhile (\<lambda>kv. fst kv < x) b))"

definition Last_then_Prev :: "bucket \<Rightarrow> (bytes \<times> bytes) list" where
  "Last_then_Prev b = rev b"

section \<open>Hashmap store\<close>

definition Hset :: "DB \<Rightarrow> string \<Rightarrow> bytes \<Rightarrow> bytes \<Rightarrow> DB \<times> error option" where
  "Hset db name key val =
     (let bucketName = Bconcat [hashPrefix, S2b name] in
      Update db (\<lambda>tx.
        case tx_CreateBucketIfNotExists tx bucketName of
          Inl err \<Rightarrow> Inl err
        | Inr tx1 \<Rightarrow> b_Put tx1 bucketName key val))"

text \<open>
  \<^verbatim>\<open>Hincr\<close>: the closure of the update transaction, then the function. The result
  \<^verbatim>\<open>i\<close> is assigned on success only, so an error returns 0 with it.
\<close>

definition Hincr_tx :: "bytes \<Rightarrow> bytes \<Rightarrow> uint64 \<Rightarrow> DB \<Rightarrow> (error + DB \<times> uint64) go" where
  "Hincr_tx bucketName key step tx =
     (case tx_CreateBucketIfNotExists tx bucketName of
        Inl err \<Rightarrow> Ret (Inl err)
      | Inr tx1 \<Rightarrow>
          (case (case b_Get tx1 bucketName key of None \<Rightarrow> Ret 0 | Some v \<Rightarrow> B2i v) of
             Panic p \<Rightarrow> Panic p
           | Ret oldNum \<Rightarrow>
               if (if step > 0 then scoreMax - step < oldNum else oldNum + step < scoreMin)
               then Ret (Inl ''overflow number'')
               else
                 (let oldNum' = oldNum + step in
                  case b_Put tx1 bucketName key (I2b oldNum') of
                    Inl err \<Rightarrow> Ret (Inl err)
                  | Inr tx2 \<Rightarrow> Ret (Inr (tx2, oldNum')))))"

definition Hincr :: "DB \<Rightarrow> string \<Rightarrow> bytes \<Rightarrow> uint64 \<Rightarrow> (DB \<times> uint64 \<times> error option) go" where
  "Hincr db name key step =
     (let bucketName = Bconcat [hashPrefix, S2b name] in
      case Hincr_tx bucketName key step db of
        Panic p \<Rightarrow> Panic p
      | Ret (Inl err) \<Rightarrow> Ret (db, 0, Some err)
      | Ret (Inr (db', i)) \<Rightarrow> Ret (db', i, None))"

definition Hdel :: "DB \<Rightarrow> string \<Rightarrow> bytes \<Rightarrow> DB \<times> error option" where
  "Hdel db name key =
     (let bucketName = Bconcat [hashPrefix, S2b name] in
      Update db (\<lambda>tx.
        case tx_Bucket tx bucketName of
          Some b \<Rightarrow> b_Delete tx bucketName key
        | None \<Rightarrow> Inr tx))"

definition HdelBucket :: "DB \<Rightarrow> string \<Rightarrow> DB \<times> error option" where
  "HdelBucket db name =
     (let bucketName = Bconcat [hashPrefix, S2b name] in
      Update db (\<lambda>tx. tx_DeleteBucket tx bucketName))"

definition Hget :: "DB \<Rightarrow> string \<Rightarrow> bytes \<Rightarrow> Reply" where
  "Hget db name key =
     (let r = \<lparr>State = replyError, Data = []\<rparr>;
          bucketName = Bconcat [hashPrefix, S2b name]
      in case tx_Bucket db bucketName of
           None \<Rightarrow> r\<lparr>State := bucketNotFound\<rparr>
         | Some b \<Rightarrow>
             (case map_of b key of
                None \<Rightarrow> r\<lparr>State := keyNotFound\<rparr>
              | Some v \<Rightarrow> r\<lparr>State := replyOK, Data := Data r @ [v]\<rparr>))"

text \<open>
  \<^verbatim>\<open>Hrscan\<close>: the loop over the pairs the cursor visits, then the function. After the
  read transaction the source tests \<^verbatim>\<open>err == nil\<close> and then calls \<^verbatim>\<open>err.Error()\<close>, a
  method call on a nil interface value, which panics; when the transaction returned an
  error the status stays \<^verbatim>\<open>replyError\<close>.
\<close>

fun Hrscan_loop :: "bytes \<Rightarrow> int \<Rightarrow> (bytes \<times> bytes) list \<Rightarrow> int \<Rightarrow> Reply \<Rightarrow> Reply" where
  "Hrscan_loop startKey limit [] n r = r"
| "Hrscan_loop startKey limit ((k, v) # rest) n r =
     (if bytes_Compare k startKey = - 1
      then (let n' = n + 1;
                r' = r\<lparr>State := replyOK, Data := Data r @ [k, v]\<rparr>
            in if n' \<ge> limit then r' else Hrscan_loop startKey limit rest n' r')
      else Hrscan_loop startKey limit rest n r)"

definition Hrscan_view :: "DB \<Rightarrow> string \<Rightarrow> bytes \<Rightarrow> int \<Rightarrow> Reply \<times> error option" where
  "Hrscan_view db name keyStart limit =
     (let r = \<lparr>State = replyError, Data = []\<rparr>;
          bucketName = Bconcat [hashPrefix, S2b name]
      in case tx_Bucket db bucketName of
           None \<Rightarrow> (r, Some bucketNotFound)
         | Some b \<Rightarrow>
             (let startKey = (if length keyStart > 0 then keyStart else [255]);
                  visit = (if length keyStart > 0 then Seek_then_Prev b startKey
                           else Last_then_Prev b)
              in (Hrscan_loop startKey limit visit 0 r, None)))"

definition Hrscan :: "DB \<Rightarrow> string \<Rightarrow> bytes \<Rightarrow> int \<Rightarrow> Reply go" where
  "Hrscan db name keyStart limit =
     (case Hrscan_view db name keyStart limit of
        (r, None) \<Rightarrow> Panic NilDereference
      | (r, Some err) \<Rightarrow> Ret r)"

section \<open>Sorted-set store\<close>

text \<open>
  \<^verbatim>\<open>bytes.Equal(oldScore, score)\<close> where \<^verbatim>\<open>oldScore\<close> may be \<^verbatim>\<open>nil\<close>: a nil slice
  equals an empty one.
\<close>

definition bytes_Equal_opt :: "bytes option \<Rightarrow> bytes \<Rightarrow> bool" where
  "bytes_Equal_opt old score = (case old of None \<Rightarrow> score = [] | Some s \<Rightarrow> s = score)"

text \<open>
  The index update that \<^verbatim>\<open>Zset\<close> performs once and \<^verbatim>\<open>Zmset\<close> once per pair (the
  two blocks of the source are the same): put the new composite key, put the score,
  delete the old composite key when there was an old score.
\<close>

definition zset_update :: "bytes \<Rightarrow> bytes \<Rightarrow> bytes \<Rightarrow> bytes \<Rightarrow> DB \<Rightarrow> error + DB" where
  "zset_update keyBucket scoreBucket key score tx =
     (let newKey = Bconcat [score, key];
          oldScore = b_Get tx scoreBucket key
      in if \<not> bytes_Equal_opt oldScore score
         then (case b_Put tx keyBucket newKey [] of
                 Inl err1 \<Rightarrow> Inl err1
               | Inr tx1 \<Rightarrow>
                   (case b_Put tx1 scoreBucket key score of
                      Inl err2 \<Rightarrow> Inl err2
                    | Inr tx2 \<Rightarrow>
                        (case oldScore of
                           Some old \<Rightarrow> b_Delete tx2 keyBucket (Bconcat [old, key])
                         | None \<Rightarrow> Inr tx2)))
         else Inr tx)"

definition Zset :: "DB \<Rightarrow> string \<Rightarrow> bytes \<Rightarrow> uint64 \<Rightarrow> DB \<times> error option" where
  "Zset db name key val =
     (let score = I2b val;
          keyBucket = Bconcat [zetKeyPrefix, S2b name];
          scoreBucket = Bconcat [zetScorePrefix, S2b name]
      in Update db (\<lambda>tx.
           case tx_CreateBucketIfNotExists tx keyBucket of
             Inl err1 \<Rightarrow> Inl err1
           | Inr tx1 \<Rightarrow>
               (case tx_CreateBucketIfNotExists tx1 scoreBucket of
                  Inl err2 \<Rightarrow> Inl err2
                | Inr tx2 \<Rightarrow> zset_update keyBucket scoreBucket key score tx2)))"

fun Zmset_loop :: "bytes \<Rightarrow> bytes \<Rightarrow> bytes list \<Rightarrow> DB \<Rightarrow> error + DB" where
  "Zmset_loop keyBucket scoreBucket (key # score # rest) tx =
     (case zset_update keyBucket scoreBucket key score tx of
        Inl err \<Rightarrow> Inl err
      | Inr tx' \<Rightarrow> Zmset_loop keyBucket scoreBucket rest tx')"
| "Zmset_loop keyBucket scoreBucket kvs tx = Inr tx"

definition Zmset :: "DB \<Rightarrow> string \<Rightarrow> bytes list \<Rightarrow> DB \<times> error option" where
  "Zmset db name kvs =
     (if length kvs = 0 \<or> length kvs mod 2 \<noteq> 0
      then (db, Some ''kvs len must is an even number'')
      else
        (let keyBucket = Bconcat [zetKeyPrefix, S2b name];
             scoreBucket = Bconcat [zetScorePrefix, S2b name]
         in Update db (\<lambda>tx.
              case tx_CreateBucketIfNotExists tx keyBucket of
                Inl err1 \<Rightarrow> Inl err1
              | Inr tx1 \<Rightarrow>
                  (case tx_CreateBucketIfNotExists tx1 scoreBucket of
                     Inl err2 \<Rightarrow> Inl err2
                   | Inr tx2 \<Rightarrow> Zmset_loop keyBucket scoreBucket kvs tx2))))"

text \<open>
  \<^verbatim>\<open>Zincr\<close>: the closure writes the captured variable \<^verbatim>\<open>score\<close>, which the function
  returns also beside an error; so the closure's error result carries the value
  \<^verbatim>\<open>score\<close> has at that point.
\<close>

definition Zincr_tx ::
  "bytes \<Rightarrow> bytes \<Rightarrow> bytes \<Rightarrow> uint64 \<Rightarrow> DB \<Rightarrow> (error \<times> uint64 + DB \<times> uint64) go" where
  "Zincr_tx keyBucket scoreBucket key step tx =
     (case tx_CreateBucketIfNotExists tx keyBucket of
        Inl err1 \<Rightarrow> Ret (Inl (err1, 0))
      | Inr tx1 \<Rightarrow>
          (case tx_CreateBucketIfNotExists tx1 scoreBucket of
             Inl err2 \<Rightarrow> Ret (Inl (err2, 0))
           | Inr tx2 \<Rightarrow>
               (let vOld = b_Get tx2 scoreBucket key in
                case (case vOld of None \<Rightarrow> Ret 0 | Some v \<Rightarrow> B2i v) of
                  Panic p \<Rightarrow> Panic p
                | Ret score \<Rightarrow>
                    if (if step > 0 then scoreMax - step < score else score + step < scoreMin)
                    then Ret (Inl (''overflow number'', score))
                    else
                      (let score' = score + step;
                           newScoreB = I2b score';
                           newKey = Bconcat [newScoreB, key]
                       in case b_Put tx2 keyBucket newKey [] of
                            Inl err1 \<Rightarrow> Ret (Inl (err1, score'))
                          | Inr tx3 \<Rightarrow>
                              (case b_Put tx3 scoreBucket key newScoreB of
                                 Inl err2 \<Rightarrow> Ret (Inl (err2, score'))
                               | Inr tx4 \<Rightarrow>
                                   (case vOld of
                                      Some old \<Rightarrow>
                                        (case b_Delete tx4 keyBucket (Bconcat [old, key]) of
                                           Inl err1 \<Rightarrow> Ret (Inl (err1, score'))
                                         | Inr tx5 \<Rightarrow> Ret (Inr (tx5, score')))
                                    | None \<Rightarrow> Ret (Inr (tx4, score'))))))))"

definition Zincr :: "DB \<Rightarrow> string \<Rightarrow> bytes \<Rightarrow> uint64 \<Rightarrow> (DB \<times> uint64 \<times> error option) go" where
  "Zincr db name key step =
     (let keyBucket = Bconcat [zetKeyPrefix, S2b name];
          scoreBucket = Bconcat [zetScorePrefix, S2b name]
      in case Zincr_tx keyBucket scoreBucket key step db of
           Panic p \<Rightarrow> Panic p
         | Ret (Inl (err, score)) \<Rightarrow> Ret (db, score, Some err)
         | Ret (Inr (db', score)) \<Rightarrow> Ret (db', score, None))"

definition Zdel :: "DB \<Rightarrow> string \<Rightarrow> bytes \<Rightarrow> DB \<times> error option" where
  "Zdel db name key =
     (let keyBucket = Bconcat [zetKeyPrefix, S2b name];
          scoreBucket = Bconcat [zetScorePrefix, S2b name]
      in Update db (\<lambda>tx.
           case tx_Bucket tx keyBucket of
             None \<Rightarrow> Inr tx
           | Some b1 \<Rightarrow>
               (case tx_Bucket tx scoreBucket of
                  None \<Rightarrow> Inr tx
                | Some b2 \<Rightarrow>
                    (case b_Get tx scoreBucket key of
                       Some oldScore \<Rightarrow>
                         (case b_Delete tx keyBucket (Bconcat [oldScore, key]) of
                            Inl err \<Rightarrow> Inl err
                          | Inr tx1 \<Rightarrow> b_Delete tx1 scoreBucket key)
                     | None \<Rightarrow> Inr tx))))"

text \<open>
  The scan loops append \<^verbatim>\<open>k[8:]\<close> and \<^verbatim>\<open>k[0:8]\<close>; the slice expression \<^verbatim>\<open>k[8:]\<close>
  panics when \<^verbatim>\<open>k\<close> has fewer than 8 bytes. \<^verbatim>\<open>Zscan\<close> and \<^verbatim>\<open>Zrscan\<close> run the same
  loop body, on \<^verbatim>\<open>bytes.Compare\<close> results 1 and -1.
\<close>

fun Zscan_loop :: "int \<Rightarrow> bytes \<Rightarrow> int \<Rightarrow> (bytes \<times> bytes) list \<Rightarrow> int \<Rightarrow> Reply \<Rightarrow> Reply go" where
  "Zscan_loop cmp startScoreKeyB limit [] n r = Ret r"
| "Zscan_loop cmp startScoreKeyB limit ((k, v) # rest) n r =
     (if bytes_Compare k startScoreKeyB = cmp
      then (if length k < 8 then Panic SliceBoundsOutOfRange
            else (let n' = n + 1;
                      r' = r\<lparr>State := replyOK, Data := Data r @ [drop 8 k, take 8 k]\<rparr>
                  in if n' = limit then Ret r'
                     else Zscan_loop cmp startScoreKeyB limit rest n' r'))
      else Zscan_loop cmp startScoreKeyB limit rest n r)"

definition Zscan :: "DB \<Rightarrow> string \<Rightarrow> bytes \<Rightarrow> bytes \<Rightarrow> int \<Rightarrow> Reply go" where
  "Zscan db name keyStart scoreStart limit =
     (let r = \<lparr>State = replyError, Data = []\<rparr>;
          keyBucket = Bconcat [zetKeyPrefix, S2b name];
          scoreStartB = (if length scoreStart > 0 then scoreStart else I2b scoreMin);
          startScoreKeyB = Bconcat [scoreStartB, keyStart]
      in case tx_Bucket db keyBucket of
           None \<Rightarrow> Ret (r\<lparr>State := bucketNotFound\<rparr>)
         | Some b \<Rightarrow> Zscan_loop 1 startScoreKeyB limit (Seek_then_Next b scoreStartB) 0 r)"

definition Zrscan :: "DB \<Rightarrow> string \<Rightarrow> bytes \<Rightarrow> bytes \<Rightarrow> int \<Rightarrow> Reply go" where
  "Zrscan db name keyStart scoreStart limit =
     (let r = \<lparr>State = replyError, Data = []\<rparr>;
          keyBucket = Bconcat [zetKeyPrefix, S2b name];
          startKey = (if length keyStart > 0 then keyStart else [255]);
          scoreStartB = (if length scoreStart > 0 then scoreStart else I2b scoreMax);
          startScoreKeyB = Bconcat [scoreStartB, startKey]
      in case tx_Bucket db keyBucket of
           None \<Rightarrow> Ret (r\<lparr>State := bucketNotFound\<rparr>)
         | Some b \<Rightarrow>
             (let visit = (if length scoreStart > 0 then Seek_then_Prev b scoreStartB
                           else Last_then_Prev b)
              in Zscan_loop (- 1) startScoreKeyB limit visit 0 r))"

section \<open>Reply decoder\<close>

text \<open>
  Go's \<^verbatim>\<open>int\<close> and \<^verbatim>\<open>uint\<close> are taken as 64 bits wide. \<^verbatim>\<open>json.Unmarshal\<close> is a
  parameter of \<^verbatim>\<open>Reply.JSON\<close>; the index expression \<^verbatim>\<open>r.Data[0]\<close> is evaluated before
  the call and panics on an empty \<^verbatim>\<open>Data\<close>.
\<close>

definition Reply_String :: "Reply \<Rightarrow> string" where
  "Reply_String r = (if length (Data r) > 0 then B2s (Data r ! 0) else '''')"

definition Reply_Uint64 :: "Reply \<Rightarrow> uint64" where
  "Reply_Uint64 r =
     (if length (Data r) < 1 then 0
      else if length (Data r ! 0) < 8 then 0
      else be_uint64 (Data r ! 0))"

definition Reply_Int :: "Reply \<Rightarrow> int" where
  "Reply_Int r = sint (Reply_Uint64 r)"

definition Reply_Int64 :: "Reply \<Rightarrow> int" where
  "Reply_Int64 r = (if length (Data r) < 1 then 0 else sint (Reply_Uint64 r))"

definition Reply_Uint :: "Reply \<Rightarrow> uint64" where
  "Reply_Uint r = Reply_Uint64 r"

fun List_loop :: "bytes list \<Rightarrow> Entry list" where
  "List_loop (k # v # rest) = \<lparr>Key = k, Value = v\<rparr> # List_loop rest"
| "List_loop d = []"

definition Reply_List :: "Reply \<Rightarrow> Entry list" where
  "Reply_List r = (if length (Data r) < 1 then [] else List_loop (Data r))"

fun Dict_loop :: "bytes list \<Rightarrow> (string \<Rightarrow> bytes option) \<Rightarrow> (string \<Rightarrow> bytes option)" where
  "Dict_loop (k # v # rest) dict = Dict_loop rest (dict(B2s k \<mapsto> v))"
| "Dict_loop d dict = dict"

definition Reply_Dict :: "Reply \<Rightarrow> (string \<Rightarrow> bytes option)" where
  "Reply_Dict r = (if length (Data r) < 1 then Map.empty else Dict_loop (Data r) Map.empty)"

definition Reply_JSON :: "(bytes \<Rightarrow> error option) \<Rightarrow> Reply \<Rightarrow> error option go" where
  "Reply_JSON unmarshal r =
     (case Data r of [] \<Rightarrow> Panic IndexOutOfRange | d # rest \<Rightarrow> Ret (unmarshal d))"

section \<open>The sorted-set invariant\<close>

text \<open>
  A bucket of the model is well formed when its keys are strictly ascending, as the
  engine keeps them.
\<close>

definition wf_bucket :: "bucket \<Rightarrow> bool" where
  "wf_bucket b = sorted_wrt (<) (map fst b)"

text \<open>
  The consistency of the two index namespaces of a sorted set, \<open>zkey\<close> (score index:
  composite key \<open>score \<parallel> member\<close>, empty value) and \<open>zscore\<close> (member index: member to
  score). Every member of \<open>zscore\<close> with score \<open>s\<close> has the pair \<open>(s \<parallel> m, empty)\<close> in
  \<open>zkey\<close>, no composite key of \<open>zkey\<close> gives the member another 8-byte score, and
  every composite key of \<open>zkey\<close> belongs to a pair of \<open>zscore\<close>.
\<close>

definition zset_consistent :: "bucket \<Rightarrow> bucket \<Rightarrow> bool" where
  "zset_consistent zkey zscore \<longleftrightarrow>
     (\<forall>(m, s) \<in> set zscore.
        (s @ m, []) \<in> set zkey \<and>
        (\<forall>(k, v) \<in> set zkey. length k = 8 + length m \<and> drop 8 k = m \<longrightarrow> take 8 k = s))
     \<and> (\<forall>(k, v) \<in> set zkey. \<exists>(m, s) \<in> set zscore. k = s @ m)"

text \<open>
  What the engine guarantees of every bucket it holds: the keys are strictly ascending
  and none is empty (\<^verbatim>\<open>Put\<close> refuses an empty key). And the condition on a member
  index that every stored score is exactly 8 bytes long.
\<close>

definition engine_bucket :: "bucket \<Rightarrow> bool" where
  "engine_bucket b \<longleftrightarrow> wf_bucket b \<and> [] \<notin> fst ` set b"

definition scores_8_bytes :: "bucket \<Rightarrow> bool" where
  "scores_8_bytes zscore \<longleftrightarrow> (\<forall>(m, s) \<in> set zscore. length s = 8)"

text \<open>
  The invariant the proofs carry: both buckets well formed, every stored score 8 bytes
  long, every member non-empty, the keys of \<open>zkey\<close> exactly the composite keys of the
  pairs of \<open>zscore\<close>, and every value of \<open>zkey\<close> empty. It implies \<open>zset_consistent\<close>,
  and it holds of every pair of engine buckets that is \<open>zset_consistent\<close> and has
  8-byte scores.
\<close>

definition index_inv :: "bucket \<Rightarrow> bucket \<Rightarrow> bool" where
  "index_inv zkey zscore \<longleftrightarrow>
     wf_bucket zkey \<and> wf_bucket zscore
     \<and> (\<forall>(m, s) \<in> set zscore. length s = 8 \<and> m \<noteq> [])
     \<and> fst ` set zkey = (\<lambda>(m, s). s @ m) ` set zscore
     \<and> (\<forall>(k, v) \<in> set zkey. v = [])"

definition zset_inv :: "DB \<Rightarrow> string \<Rightarrow> bool" where
  "zset_inv db name \<longleftrightarrow>
     index_inv (contents db (Bconcat [zetKeyPrefix, S2b name]))
       (contents db (Bconcat [zetScorePrefix, S2b name]))"

text \<open>
  The score index after one index update of member \<open>key\<close> to \<open>score\<close>, and the members
  both \<^verbatim>\<open>Put\<close> calls of an update accept (the composite key is 8 bytes longer than the
  member).
\<close>

definition index_write :: "bytes \<Rightarrow> bytes \<Rightarrow> bucket \<Rightarrow> bucket \<Rightarrow> bucket" where
  "index_write key score zkey zscore =
     (case map_of zscore key of
        None \<Rightarrow> put_kv (score @ key) [] zkey
      | Some old \<Rightarrow> del_k (old @ key) (put_kv (score @ key) [] zkey))"

definition valid_member :: "bytes \<Rightarrow> bool" where
  "valid_member key \<longleftrightarrow> key \<noteq> [] \<and> length key + 8 \<le> MaxKeySize"

section \<open>Sequences of sorted-set calls\<close>

text \<open>
  A mutating call on one sorted set, the store after a call (a panic of \<^verbatim>\<open>Zincr\<close>
  ends the run), and the stores after each call of a sequence.
\<close>

datatype zop = ZsetOp bytes uint64 | ZmsetOp "bytes list" | ZincrOp bytes uint64 | ZdelOp bytes

fun zapply :: "DB \<Rightarrow> string \<Rightarrow> zop \<Rightarrow> DB go" where
  "zapply db name (ZsetOp key val) = Ret (fst (Zset db name key val))"
| "zapply db name (ZmsetOp kvs) = Ret (fst (Zmset db name kvs))"
| "zapply db name (ZincrOp key step) =
     (case Zincr db name key step of Panic p \<Rightarrow> Panic p | Ret (db', score, err) \<Rightarrow> Ret db')"
| "zapply db name (ZdelOp key) = Ret (fst (Zdel db name key))"

fun zrun :: "DB \<Rightarrow> string \<Rightarrow> zop list \<Rightarrow> DB list go" where
  "zrun db name [] = Ret []"
| "zrun db name (op # ops) =
     (case zapply db name op of
        Panic p \<Rightarrow> Panic p
      | Ret db' \<Rightarrow> (case zrun db' name ops of Panic p \<Rightarrow> Panic p | Ret ds \<Rightarrow> Ret (db' # ds)))"

text \<open>
  The calls the invariant theorem covers: every \<^verbatim>\<open>Zset\<close> and \<^verbatim>\<open>Zdel\<close>, a \<^verbatim>\<open>Zmset\<close>
  whose score arguments are 8 bytes long, and a \<^verbatim>\<open>Zincr\<close> whose step is not zero or
  whose member is not stored yet.
\<close>

fun scores8 :: "bytes list \<Rightarrow> bool" where
  "scores8 (key # score # rest) = (length score = 8 \<and> scores8 rest)"
| "scores8 kvs = True"

fun admissible :: "DB \<Rightarrow> string \<Rightarrow> zop \<Rightarrow> bool" where
  "admissible db name (ZsetOp key val) = True"
| "admissible db name (ZmsetOp kvs) = scores8 kvs"
| "admissible db name (ZincrOp key step) =
     (step \<noteq> 0 \<or> b_Get db (Bconcat [zetScorePrefix, S2b name]) key = None)"
| "admissible db name (ZdelOp key) = True"

fun admissible_run :: "DB \<Rightarrow> string \<Rightarrow> zop list \<Rightarrow> bool" where
  "admissible_run db name [] = True"
| "admissible_run db name (op # ops) =
     (admissible db name op \<and>
      (case zapply db name op of Panic p \<Rightarrow> True | Ret db' \<Rightarrow> admissible_run db' name ops))"

section \<open>Populating and reading a sorted set\<close>

text \<open>
  A sorted set populated by a list of \<^verbatim>\<open>Zset\<close> calls, and the member/score pairs the
  set then holds: the last score set for each member the engine accepts.
\<close>

fun zpopulate :: "DB \<Rightarrow> string \<Rightarrow> (bytes \<times> uint64) list \<Rightarrow> DB" where
  "zpopulate db name [] = db"
| "zpopulate db name ((key, val) # ins) = zpopulate (fst (Zset db name key val)) name ins"

definition record_pair :: "(bytes \<times> uint64) list \<Rightarrow> bytes \<times> uint64 \<Rightarrow> (bytes \<times> uint64) list" where
  "record_pair acc p =
     (if valid_member (fst p) then p # filter (\<lambda>q. fst q \<noteq> fst p) acc else acc)"

definition final_pairs :: "(bytes \<times> uint64) list \<Rightarrow> (bytes \<times> uint64) list" where
  "final_pairs ins = foldl record_pair [] ins"

text \<open>
  The entry a scan makes of a composite key; the order of entries by score, read as a
  number, and then by member bytes; and the entries whose composite key is below the
  start key of a default reverse scan, the maximal score followed by the byte 255.
\<close>

definition composite_entry :: "bytes \<times> bytes \<Rightarrow> Entry" where
  "composite_entry kv = \<lparr>Key = drop 8 (fst kv), Value = take 8 (fst kv)\<rparr>"

definition entry_less :: "Entry \<Rightarrow> Entry \<Rightarrow> bool" where
  "entry_less a b \<longleftrightarrow>
     be_uint64 (Value a) < be_uint64 (Value b)
     \<or> (be_uint64 (Value a) = be_uint64 (Value b) \<and> Key a < Key b)"

definition below_sentinel :: "Entry \<Rightarrow> bool" where
  "below_sentinel e \<longleftrightarrow> Value e @ Key e < Bconcat [I2b scoreMax, [255]]"

text \<open>
  The number a byte list denotes in big-endian notation, and the \<open>n\<close> big-endian bytes
  of a number: the link between the byte order of encoded scores and their numeric
  order.
\<close>

fun be_nat :: "bytes \<Rightarrow> nat" where
  "be_nat [] = 0"
| "be_nat (b # bs) = unat b * 256 ^ length bs + be_nat bs"

fun be_bytes :: "nat \<Rightarrow> nat \<Rightarrow> bytes" where
  "be_bytes 0 N = []"
| "be_bytes (Suc n) N = of_nat (N div 256 ^ n mod 256) # be_bytes n N"

section \<open>Scenarios\<close>

text \<open>
  A store with a hashmap and a sorted set named \<^verbatim>\<open>c\<close>, each holding the key \<^verbatim>\<open>k\<close> with
  the number \<open>v\<close>.
\<close>

definition db_counter :: "uint64 \<Rightarrow> DB" where
  "db_counter v =
     fst (Zset (fst (Hset Map.empty ''c'' (S2b ''k'') (I2b v))) ''c'' (S2b ''k'') v)"


text \<open>
  A sequence of calls on the sorted set \<^verbatim>\<open>s\<close> with one call of each kind, and the
  calls of the specification's scenario A.
\<close>

definition zops_example :: "zop list" where
  "zops_example = [ZsetOp [97] 10, ZmsetOp [[98], I2b 5], ZincrOp [97] 1, ZdelOp [98]]"

definition scenario_A :: "(bytes \<times> uint64) list" where
  "scenario_A = [(S2b ''alice'', 10), (S2b ''bob'', 5), (S2b ''alice'', 20)]"


section \<open>Theorems\<close>

subsection \<open>Unfolding rules and basic facts\<close>

lemmas const_defs = replyOK_def replyNotFound_def replyError_def bucketNotFound_def keyNotFound_def
  scoreMin_def scoreMax_def hashPrefix_def zetKeyPrefix_def zetScorePrefix_def
  ErrBucketNotFound_def ErrBucketNameRequired_def ErrKeyRequired_def ErrKeyTooLarge_def
  ErrValueTooLarge_def MaxKeySize_def MaxValueSize_def

lemmas bolt_defs = tx_Bucket_def tx_CreateBucketIfNotExists_def tx_DeleteBucket_def
  contents_def b_Get_def b_Put_def b_Delete_def Update_def

lemmas codec_defs = S2b_def Bconcat_def bytes_Compare_def

lemma map_of_put_kv: "map_of (put_kv k v b) = (map_of b)(k \<mapsto> v)"
  by (induction b) (auto simp: fun_upd_twist)

lemma bucket_names_nonempty:
  "Bconcat [hashPrefix, S2b name] \<noteq> []" "Bconcat [zetKeyPrefix, S2b name] \<noteq> []"
  "Bconcat [zetScorePrefix, S2b name] \<noteq> []"
  by (simp_all add: Bconcat_def hashPrefix_def zetKeyPrefix_def zetScorePrefix_def)

lemma zset_bucket_names_distinct:
  "Bconcat [zetKeyPrefix, S2b name] \<noteq> Bconcat [zetScorePrefix, S2b name]"
  by (simp add: Bconcat_def zetKeyPrefix_def zetScorePrefix_def)


subsection \<open>The score codec\<close>

lemma be_uint64_I2b: "be_uint64 (I2b x) = x"
proof -
  have "ucast (ucast x :: byte) OR push_bit 8 (ucast (ucast (drop_bit 8 x) :: byte))
        OR push_bit 16 (ucast (ucast (drop_bit 16 x) :: byte))
        OR push_bit 24 (ucast (ucast (drop_bit 24 x) :: byte))
        OR push_bit 32 (ucast (ucast (drop_bit 32 x) :: byte))
        OR push_bit 40 (ucast (ucast (drop_bit 40 x) :: byte))
        OR push_bit 48 (ucast (ucast (drop_bit 48 x) :: byte))
        OR push_bit 56 (ucast (ucast (drop_bit 56 x) :: byte)) = x" (is "?L = x")
  proof (rule bit_word_eqI)
    fix n assume n: "n < LENGTH(64)"
    have aux: "\<And>k. (n - k < 8) = (n < 8 + k)" by arith
    have aux2: "\<And>k. n - k < 64" using n by simp
    from n consider "n < 8" | "8 \<le> n" "n < 16" | "16 \<le> n" "n < 24" | "24 \<le> n" "n < 32"
      | "32 \<le> n" "n < 40" | "40 \<le> n" "n < 48" | "48 \<le> n" "n < 56" | "56 \<le> n" "n < 64"
      by fastforce
    then show "bit ?L n = bit x n"
      by cases (simp_all add: bit_or_iff bit_ucast_iff bit_push_bit_iff bit_drop_bit_eq aux aux2)
  qed
  then show ?thesis
    by (simp add: be_uint64_def I2b_def)
qed

lemma length_I2b: "length (I2b x) = 8"
  by (simp add: I2b_def)

lemma B2i_I2b: "B2i (I2b x) = Ret x"
  by (simp add: B2i_def BigEndian_Uint64_def length_I2b be_uint64_I2b)

text \<open>
  Claim C9. Decoding the 8-byte big-endian encoding of a score gives the score back:
  \<open>B2i (I2b x)\<close> returns \<open>x\<close> (and does not panic) for every 64-bit \<open>x\<close>.
\<close>

theorem score_codec_round_trip: "B2i (I2b x) = Ret x"
  by (rule B2i_I2b)

theorem score_codec_round_trip_witness: "B2i (I2b 123456) = Ret 123456"
  using score_codec_round_trip [of 123456] by simp

subsection \<open>The reverse scan of a hashmap\<close>

text \<open>
  Claim C2. The claim says that a reverse scan of an existing hashmap returns a Reply with
  the outcome in its status field and never raises a fault on a successful read. The
  code does the opposite: whenever the namespace exists, the read transaction returns
  \<^verbatim>\<open>nil\<close>, the inverted test \<^verbatim>\<open>err == nil\<close> holds and \<^verbatim>\<open>err.Error()\<close> panics, whatever
  the start key and the limit.
\<close>

theorem Hrscan_panics_after_read:
  "tx_Bucket db (Bconcat [hashPrefix, S2b name]) = Some b \<Longrightarrow>
   Hrscan db name keyStart limit = Panic NilDereference"
  by (simp add: Hrscan_def Hrscan_view_def Let_def)

theorem Hrscan_panics_after_read_witness:
  "tx_Bucket (fst (Hset Map.empty ''h'' (S2b ''a'') (S2b ''1''))) (Bconcat [hashPrefix, S2b ''h''])
     = Some [(S2b ''a'', S2b ''1'')]
   \<and> Hrscan (fst (Hset Map.empty ''h'' (S2b ''a'') (S2b ''1''))) ''h'' (S2b ''b'') 10
     = Panic NilDereference"
proof -
  have h: "tx_Bucket (fst (Hset Map.empty ''h'' (S2b ''a'') (S2b ''1''))) (Bconcat [hashPrefix, S2b ''h''])
     = Some [(S2b ''a'', S2b ''1'')]"
    by (simp add: Hset_def bolt_defs codec_defs const_defs)
  from Hrscan_panics_after_read [OF h] h show ?thesis by simp
qed

subsection \<open>Decoding short input\<close>

text \<open>
  Claim C3. The claim says that no decoding function panics on short or malformed input.
  In the code \<^verbatim>\<open>B2i\<close> panics on every input shorter than 8 bytes, and \<^verbatim>\<open>Reply.JSON\<close>
  panics on every Reply with empty \<^verbatim>\<open>Data\<close>.
\<close>

theorem decoders_panic:
  "(length v < 8 \<longrightarrow> B2i v = Panic IndexOutOfRange) \<and>
   (Data r = [] \<longrightarrow> Reply_JSON unmarshal r = Panic IndexOutOfRange)"
  by (simp add: B2i_def BigEndian_Uint64_def Reply_JSON_def)

theorem decoders_panic_witness:
  "length ([1, 2, 3] :: bytes) < 8 \<and> B2i [1, 2, 3] = Panic IndexOutOfRange \<and>
   Data \<lparr>State = replyOK, Data = []\<rparr> = [] \<and>
   Reply_JSON (\<lambda>d. None) \<lparr>State = replyOK, Data = []\<rparr> = Panic IndexOutOfRange"
  using decoders_panic [of "[1, 2, 3]" "\<lparr>State = replyOK, Data = []\<rparr>" "\<lambda>d. None"]
  by simp

subsection \<open>Dropping a hashmap\<close>

text \<open>
  Claim C7, as amended. \<^verbatim>\<open>HdelBucket\<close> drops the entire namespace and returns no error
  when the namespace exists; when it is absent the call returns the engine's
  bucket-not-found error and the store is unchanged.
\<close>

theorem HdelBucket_result:
  "HdelBucket db name =
     (case tx_Bucket db (Bconcat [hashPrefix, S2b name]) of
        None \<Rightarrow> (db, Some ErrBucketNotFound)
      | Some b \<Rightarrow> (db((Bconcat [hashPrefix, S2b name]) := None), None))"
  by (simp add: HdelBucket_def bolt_defs split: option.splits)

theorem HdelBucket_absent_counterexample:
  "tx_Bucket Map.empty (Bconcat [hashPrefix, S2b ''h'']) = None \<and>
   HdelBucket Map.empty ''h'' = (Map.empty, Some ''bucket not found'')"
  by (simp add: HdelBucket_def bolt_defs const_defs)

theorem HdelBucket_result_witness:
  "HdelBucket (fst (Hset Map.empty ''h'' (S2b ''k1'') (S2b ''v1''))) ''h'' = (Map.empty, None) \<and>
   HdelBucket Map.empty ''h'' = (Map.empty, Some ErrBucketNotFound)"
  using HdelBucket_result [of "fst (Hset Map.empty ''h'' (S2b ''k1'') (S2b ''v1''))" "''h''"]
    HdelBucket_result [of Map.empty "''h''"]
  by (simp add: Hset_def bolt_defs codec_defs const_defs)

subsection \<open>Point lookups in a hashmap\<close>

text \<open>
  Claim C8, as amended. After a successful \<^verbatim>\<open>Hset\<close> of a key (any key and value the
  engine accepts), \<^verbatim>\<open>Hget\<close> of that key returns status \<^verbatim>\<open>ok\<close> and the value; \<^verbatim>\<open>Hget\<close>
  of a key that is not stored in the existing namespace returns status
  \<^verbatim>\<open>key_not_found\<close>; \<^verbatim>\<open>Hget\<close> on an absent namespace returns status
  \<^verbatim>\<open>bucket_not_found\<close>.
\<close>

theorem Hget_status:
  assumes "key \<noteq> []" "length key \<le> MaxKeySize" "length val \<le> MaxValueSize"
    and "db' = fst (Hset db name key val)"
  shows "snd (Hset db name key val) = None
    \<and> Hget db' name key = \<lparr>State = replyOK, Data = [val]\<rparr>
    \<and> (key' \<noteq> key \<and> b_Get db (Bconcat [hashPrefix, S2b name]) key' = None \<longrightarrow>
         Hget db' name key' = \<lparr>State = keyNotFound, Data = []\<rparr>)
    \<and> (tx_Bucket db' (Bconcat [hashPrefix, S2b other]) = None \<longrightarrow>
         Hget db' other key' = \<lparr>State = bucketNotFound, Data = []\<rparr>)"
  using assms bucket_names_nonempty(1) [of name]
  by (auto simp add: Hset_def Hget_def bolt_defs Let_def map_of_put_kv split: option.splits)

theorem Hget_missing_counterexample:
  "State (Hget (fst (Hset Map.empty ''h'' (S2b ''k1'') (S2b ''v1''))) ''h'' (S2b ''missing''))
     \<noteq> ''not_found''"
  by (simp add: Hset_def Hget_def bolt_defs codec_defs const_defs)

theorem Hget_status_witness:
  "snd (Hset Map.empty ''h'' (S2b ''k1'') (S2b ''v1'')) = None
   \<and> Hget (fst (Hset Map.empty ''h'' (S2b ''k1'') (S2b ''v1''))) ''h'' (S2b ''k1'')
       = \<lparr>State = ''ok'', Data = [S2b ''v1'']\<rparr>
   \<and> Hget (fst (Hset Map.empty ''h'' (S2b ''k1'') (S2b ''v1''))) ''h'' (S2b ''missing'')
       = \<lparr>State = ''key_not_found'', Data = []\<rparr>
   \<and> Hget (fst (Hset Map.empty ''h'' (S2b ''k1'') (S2b ''v1''))) ''g'' (S2b ''missing'')
       = \<lparr>State = ''bucket_not_found'', Data = []\<rparr>"
proof -
  have a: "S2b ''k1'' \<noteq> []" "length (S2b ''k1'') \<le> MaxKeySize"
    "length (S2b ''v1'') \<le> MaxValueSize"
    by (simp_all add: S2b_def MaxKeySize_def MaxValueSize_def)
  have b: "S2b ''missing'' \<noteq> S2b ''k1''
      \<and> b_Get Map.empty (Bconcat [hashPrefix, S2b ''h'']) (S2b ''missing'') = None"
    by (simp add: S2b_def b_Get_def contents_def)
  have c: "tx_Bucket (fst (Hset Map.empty ''h'' (S2b ''k1'') (S2b ''v1'')))
      (Bconcat [hashPrefix, S2b ''g'']) = None"
    by (simp add: Hset_def bolt_defs codec_defs const_defs)
  from Hget_status [OF a refl, of Map.empty "''h''" "S2b ''missing''" "''g''"] b c
  show ?thesis by (simp add: const_defs)
qed

subsection \<open>The overflow guard of the increments\<close>

lemma scoreMax_eq: "scoreMax = - 1"
  by (simp add: scoreMax_def)

lemma unat_scoreMax_minus: "unat (scoreMax - step) = 2 ^ 64 - 1 - unat step"
proof -
  have "step \<le> scoreMax" by (simp add: scoreMax_eq)
  then have "unat (scoreMax - step) = unat scoreMax - unat step"
    by (rule unat_sub)
  moreover have "unat scoreMax = 2 ^ 64 - 1"
    by (simp add: scoreMax_def)
  ultimately show ?thesis by simp
qed

lemma unat_lt_2p64: "unat (x :: uint64) < 2 ^ 64"
  using unsigned_less [of x, where ?'a = nat] by simp

lemma overflow_guard_iff: "(scoreMax - step < old) = (2 ^ 64 \<le> unat old + unat step)"
  using unat_lt_2p64 [of step] unat_lt_2p64 [of old]
  by (simp add: word_less_nat_alt unat_scoreMax_minus) arith

lemma create_existing:
  "name \<noteq> [] \<Longrightarrow> tx name = Some b \<Longrightarrow> tx_CreateBucketIfNotExists tx name = Inr tx"
  by (simp add: tx_CreateBucketIfNotExists_def)

lemma b_Get_Some_bucket: "b_Get tx name key = Some v \<Longrightarrow> \<exists>b. tx name = Some b"
  by (cases "tx name") (simp_all add: b_Get_def contents_def)

lemma b_Get_create_other:
  "other \<noteq> name \<Longrightarrow> tx_CreateBucketIfNotExists tx other = Inr tx' \<Longrightarrow>
   b_Get tx' name key = b_Get tx name key"
  by (auto simp add: tx_CreateBucketIfNotExists_def b_Get_def contents_def
      split: if_splits option.splits)

lemma create_Inr: "name \<noteq> [] \<Longrightarrow> \<exists>tx'. tx_CreateBucketIfNotExists tx name = Inr tx'"
  by (simp add: tx_CreateBucketIfNotExists_def split: option.splits)

lemma Hincr_overflow:
  assumes "b_Get db (Bconcat [hashPrefix, S2b name]) key = Some (I2b v)"
    and "0 < step" and "scoreMax - step < v"
  shows "Hincr db name key step = Ret (db, 0, Some ''overflow number'')"
proof -
  obtain b where "db (Bconcat [hashPrefix, S2b name]) = Some b"
    using b_Get_Some_bucket [OF assms(1)] by blast
  then have "tx_CreateBucketIfNotExists db (Bconcat [hashPrefix, S2b name]) = Inr db"
    using bucket_names_nonempty(1) by (rule create_existing [rotated])
  with assms show ?thesis
    by (simp add: Hincr_def Hincr_tx_def B2i_I2b)
qed

lemma Zincr_overflow:
  assumes "b_Get db (Bconcat [zetScorePrefix, S2b name]) key = Some (I2b v)"
    and "0 < step" and "scoreMax - step < v"
  shows "Zincr db name key step = Ret (db, v, Some ''overflow number'')"
proof -
  obtain tx1 where 1: "tx_CreateBucketIfNotExists db (Bconcat [zetKeyPrefix, S2b name]) = Inr tx1"
    using create_Inr [OF bucket_names_nonempty(2)] by blast
  have g1: "b_Get tx1 (Bconcat [zetScorePrefix, S2b name]) key = Some (I2b v)"
    using b_Get_create_other [OF zset_bucket_names_distinct 1] assms(1) by simp
  then obtain b where "tx1 (Bconcat [zetScorePrefix, S2b name]) = Some b"
    using b_Get_Some_bucket by blast
  then have 2: "tx_CreateBucketIfNotExists tx1 (Bconcat [zetScorePrefix, S2b name]) = Inr tx1"
    using bucket_names_nonempty(3) by (rule create_existing [rotated])
  from 1 2 g1 assms(2,3) show ?thesis
    by (simp add: Zincr_def Zincr_tx_def B2i_I2b)
qed

text \<open>
  Claim C4. When the stored value is the maximal score \<open>2^64 - 1\<close>, \<^verbatim>\<open>Hincr\<close> and
  \<^verbatim>\<open>Zincr\<close> with a positive step return the overflow error and the store (for
  \<^verbatim>\<open>Zincr\<close>: both index namespaces) is unchanged.
\<close>

theorem increment_overflow_guard:
  assumes "0 < step"
  shows "(b_Get db (Bconcat [hashPrefix, S2b name]) key = Some (I2b scoreMax) \<longrightarrow>
           Hincr db name key step = Ret (db, 0, Some ''overflow number''))
       \<and> (b_Get db (Bconcat [zetScorePrefix, S2b name]) key = Some (I2b scoreMax) \<longrightarrow>
           Zincr db name key step = Ret (db, scoreMax, Some ''overflow number''))"
proof -
  have "2 ^ 64 \<le> unat scoreMax + unat step"
    using assms by (simp add: scoreMax_def word_less_nat_alt)
  then have "scoreMax - step < scoreMax"
    by (simp add: overflow_guard_iff)
  with assms show ?thesis
    by (simp add: Hincr_overflow Zincr_overflow)
qed

text \<open>
  Claim C5, as amended. For every stored value \<open>v \<ge> 1\<close> and every step that encodes
  \<open>-d\<close> with \<open>1 \<le> d \<le> v\<close> as the unsigned value \<open>2^64 - d\<close>, \<^verbatim>\<open>Hincr\<close> and
  \<^verbatim>\<open>Zincr\<close> fail with the overflow error and the store is unchanged: the guard
  \<^verbatim>\<open>(scoreMax - step) < oldNum\<close> treats the step as an unsigned addend and rejects it.
\<close>

theorem negative_step_rejected:
  assumes "1 \<le> d" and "d \<le> v"
  shows "(b_Get db (Bconcat [hashPrefix, S2b name]) key = Some (I2b v) \<longrightarrow>
           Hincr db name key (0 - d) = Ret (db, 0, Some ''overflow number''))
       \<and> (b_Get db (Bconcat [zetScorePrefix, S2b name]) key = Some (I2b v) \<longrightarrow>
           Zincr db name key (0 - d) = Ret (db, v, Some ''overflow number''))"
proof -
  from assms(1) have d0: "d \<noteq> 0" by auto
  then have pos: "0 < 0 - d" by (simp add: word_gt_0)
  have "scoreMax - (0 - d) = d - 1"
    by (simp add: scoreMax_eq)
  moreover have "d - 1 < v"
  proof -
    have "unat (d - 1) = unat d - 1"
      using unat_sub [OF assms(1)] by simp
    moreover have "0 < unat d"
      using d0 by (simp add: unat_gt_0)
    moreover have "unat d \<le> unat v"
      using assms(2) by (simp add: word_le_nat_alt)
    ultimately show ?thesis
      by (simp add: word_less_nat_alt)
  qed
  ultimately have "scoreMax - (0 - d) < v"
    by (simp only:)
  with pos show ?thesis
    by (simp add: Hincr_overflow Zincr_overflow del: diff_0)
qed

lemma I2b_not_Nil: "I2b v \<noteq> []"
  by (simp add: I2b_def)

lemma db_counter_get:
  "b_Get (db_counter v) (Bconcat [hashPrefix, S2b ''c'']) (S2b ''k'') = Some (I2b v)"
  "b_Get (db_counter v) (Bconcat [zetScorePrefix, S2b ''c'']) (S2b ''k'') = Some (I2b v)"
  by (simp_all add: db_counter_def Hset_def Zset_def zset_update_def bytes_Equal_opt_def
      bolt_defs codec_defs const_defs I2b_not_Nil length_I2b Let_def)

theorem increment_overflow_guard_witness:
  "(0 :: uint64) < 1
   \<and> b_Get (db_counter scoreMax) (Bconcat [hashPrefix, S2b ''c'']) (S2b ''k'') = Some (I2b scoreMax)
   \<and> Hincr (db_counter scoreMax) ''c'' (S2b ''k'') 1
       = Ret (db_counter scoreMax, 0, Some ''overflow number'')
   \<and> b_Get (db_counter scoreMax) (Bconcat [zetScorePrefix, S2b ''c'']) (S2b ''k'')
       = Some (I2b scoreMax)
   \<and> Zincr (db_counter scoreMax) ''c'' (S2b ''k'') 1
       = Ret (db_counter scoreMax, scoreMax, Some ''overflow number'')"
proof -
  have p: "(0 :: uint64) < 1" by simp
  from increment_overflow_guard [OF p, of "db_counter scoreMax" "''c''" "S2b ''k''"]
    db_counter_get [of scoreMax] p
  show ?thesis by simp
qed

theorem negative_step_counterexample:
  "b_Get (db_counter 5) (Bconcat [hashPrefix, S2b ''c'']) (S2b ''k'') = Some (I2b 5)
   \<and> Hincr (db_counter 5) ''c'' (S2b ''k'') 18446744073709551615
       = Ret (db_counter 5, 0, Some ''overflow number'')
   \<and> b_Get (db_counter 5) (Bconcat [zetScorePrefix, S2b ''c'']) (S2b ''k'') = Some (I2b 5)
   \<and> Zincr (db_counter 5) ''c'' (S2b ''k'') 18446744073709551615
       = Ret (db_counter 5, 5, Some ''overflow number'')"
proof -
  have "(0 :: uint64) < 2 ^ 64 - 1" "scoreMax - 18446744073709551615 < (5 :: uint64)"
    by (simp_all add: scoreMax_def)
  then show ?thesis
    using db_counter_get [of 5]
    by (simp add: Hincr_overflow Zincr_overflow)
qed

theorem negative_step_rejected_witness:
  "(1 :: uint64) \<le> 1 \<and> (1 :: uint64) \<le> 5
   \<and> b_Get (db_counter 5) (Bconcat [hashPrefix, S2b ''c'']) (S2b ''k'') = Some (I2b 5)
   \<and> Hincr (db_counter 5) ''c'' (S2b ''k'') (0 - 1)
       = Ret (db_counter 5, 0, Some ''overflow number'')
   \<and> b_Get (db_counter 5) (Bconcat [zetScorePrefix, S2b ''c'']) (S2b ''k'') = Some (I2b 5)
   \<and> Zincr (db_counter 5) ''c'' (S2b ''k'') (0 - 1)
       = Ret (db_counter 5, 5, Some ''overflow number'')"
proof -
  have p: "(1 :: uint64) \<le> 1" "(1 :: uint64) \<le> 5" by simp_all
  from negative_step_rejected [OF p, of "db_counter 5" "''c''" "S2b ''k''"]
    db_counter_get [of 5] p
  show ?thesis by (simp del: diff_0)
qed

subsection \<open>Scanning a short composite key\<close>

lemma Zmset_single_fresh:
  assumes "db (Bconcat [zetKeyPrefix, S2b name]) = None"
    and "db (Bconcat [zetScorePrefix, S2b name]) = None"
    and "key \<noteq> []" and "score \<noteq> []"
    and "length (score @ key) \<le> MaxKeySize" and "length score \<le> MaxValueSize"
    and "length key \<le> MaxKeySize"
  shows "Zmset db name [key, score] =
    (db(Bconcat [zetKeyPrefix, S2b name] \<mapsto> [(score @ key, [])],
        Bconcat [zetScorePrefix, S2b name] \<mapsto> [(key, score)]), None)"
  using assms bucket_names_nonempty(2,3) [of name] zset_bucket_names_distinct [of name]
  by (simp add: Zmset_def zset_update_def bytes_Equal_opt_def bolt_defs Let_def)
     (simp add: Bconcat_def)

text \<open>
  Claim C10. \<^verbatim>\<open>Zscan\<close> is not total over the states the public API reaches: on a sorted
  set that does not exist yet, a \<^verbatim>\<open>Zmset\<close> of one member with a non-empty raw score,
  where score and member together are shorter than 8 bytes and their concatenation
  sorts after the default start key, succeeds, and a following \<^verbatim>\<open>Zscan\<close> from the
  default start panics in the slice expression \<^verbatim>\<open>k[8:]\<close>.
\<close>

theorem Zscan_panics_on_short_key:
  assumes "db (Bconcat [zetKeyPrefix, S2b name]) = None"
    and "db (Bconcat [zetScorePrefix, S2b name]) = None"
    and "key \<noteq> []" and "score \<noteq> []"
    and "length (score @ key) < 8"
    and "I2b scoreMin < score @ key"
  shows "snd (Zmset db name [key, score]) = None
    \<and> Zscan (fst (Zmset db name [key, score])) name [] [] limit = Panic SliceBoundsOutOfRange"
proof -
  have "length (score @ key) \<le> MaxKeySize" "length score \<le> MaxValueSize"
    "length key \<le> MaxKeySize"
    using assms(5) by (simp_all add: MaxKeySize_def MaxValueSize_def)
  note m = Zmset_single_fresh [OF assms(1-4) this]
  have nl: "\<not> score @ key < I2b scoreMin" "score @ key \<noteq> I2b scoreMin"
    using assms(6) by auto
  show ?thesis
    using nl assms(5) zset_bucket_names_distinct [of name]
    by (simp add: m Zscan_def Seek_then_Next_def tx_Bucket_def bytes_Compare_def Let_def)
       (simp add: Bconcat_def)
qed

theorem Zscan_panics_on_short_key_witness:
  "snd (Zmset Map.empty ''s'' [[1], [1]]) = None
   \<and> Zscan (fst (Zmset Map.empty ''s'' [[1], [1]])) ''s'' [] [] 10 = Panic SliceBoundsOutOfRange"
proof -
  have a: "Map.empty (Bconcat [zetKeyPrefix, S2b ''s'']) = None"
    "Map.empty (Bconcat [zetScorePrefix, S2b ''s'']) = None"
    "[1 :: byte] \<noteq> []" "[1 :: byte] \<noteq> []" "length ([1 :: byte] @ [1]) < 8"
    "I2b scoreMin < [1] @ [1]"
    by (simp_all add: I2b_def scoreMin_def)
  from Zscan_panics_on_short_key [OF a] show ?thesis by simp
qed

subsection \<open>Buckets as sorted lists\<close>

lemma keys_put_kv: "fst ` set (put_kv k v b) = insert k (fst ` set b)"
proof (induction b)
  case Nil
  show ?case by simp
next
  case (Cons a b)
  obtain k' v' where a: "a = (k', v')" by (cases a)
  show ?case
    by (simp add: a Cons.IH insert_commute)
qed

lemma wf_put_kv: "wf_bucket b \<Longrightarrow> wf_bucket (put_kv k v b)"
proof (induction b)
  case Nil
  then show ?case by (simp add: wf_bucket_def)
next
  case (Cons a b)
  obtain k' v' where a: "a = (k', v')" by (cases a)
  from Cons.prems have wb: "wf_bucket b" and lt: "\<forall>x \<in> fst ` set b. k' < x"
    by (auto simp add: wf_bucket_def a)
  have "\<forall>x \<in> fst ` set (put_kv k v b). k' < x" if "\<not> k < k'" "k \<noteq> k'"
    using that lt by (auto simp add: keys_put_kv)
  with Cons.IH [OF wb] Cons.prems show ?case
    by (auto simp add: wf_bucket_def a)
qed

lemma keys_del_k_subset: "fst ` set (del_k k b) \<subseteq> fst ` set b"
proof (induction b)
  case Nil
  show ?case by simp
next
  case (Cons a b)
  obtain k' v' where a: "a = (k', v')" by (cases a)
  from Cons.IH show ?case
    by (simp add: a subset_insertI2)
qed

lemma wf_del_k: "wf_bucket b \<Longrightarrow> wf_bucket (del_k k b)"
proof (induction b)
  case Nil
  then show ?case by (simp add: wf_bucket_def)
next
  case (Cons a b)
  obtain k' v' where a: "a = (k', v')" by (cases a)
  from Cons.prems have wb: "wf_bucket b" and lt: "\<forall>x \<in> fst ` set b. k' < x"
    by (auto simp add: wf_bucket_def a)
  have "\<forall>x \<in> fst ` set (del_k k b). k' < x"
    using lt keys_del_k_subset [of k b] by blast
  with Cons.IH [OF wb] wb show ?case
    by (auto simp add: wf_bucket_def a)
qed

lemma wf_distinct: "wf_bucket b \<Longrightarrow> distinct (map fst b)"
  by (simp add: wf_bucket_def strict_sorted_iff)

lemma map_of_wf: "wf_bucket b \<Longrightarrow> (map_of b k = Some v) = ((k, v) \<in> set b)"
  by (simp add: wf_distinct)

lemma map_of_del_k: "wf_bucket b \<Longrightarrow> map_of (del_k k b) = (map_of b)(k := None)"
proof (induction b)
  case Nil
  then show ?case by simp
next
  case (Cons a b)
  obtain k' v' where a: "a = (k', v')" by (cases a)
  from Cons.prems have wb: "wf_bucket b" and nk: "k' \<notin> fst ` set b"
    by (auto simp add: wf_bucket_def a)
  from nk have "map_of b k' = None"
    by (simp add: map_of_eq_None_iff)
  with Cons.IH [OF wb] show ?case
    by (auto simp add: a fun_upd_twist)
qed

lemma set_wf_eq: "wf_bucket b \<Longrightarrow> set b = {(k, v). map_of b k = Some v}"
  by (auto simp add: map_of_wf)

lemma set_put_kv:
  "wf_bucket b \<Longrightarrow> set (put_kv k v b) = insert (k, v) {kv \<in> set b. fst kv \<noteq> k}"
  using set_wf_eq [OF wf_put_kv, of b k v] set_wf_eq [of b]
  by (auto simp add: map_of_put_kv split: if_splits)

lemma set_del_k:
  "wf_bucket b \<Longrightarrow> set (del_k k b) = {kv \<in> set b. fst kv \<noteq> k}"
  using set_wf_eq [OF wf_del_k, of b k] set_wf_eq [of b]
  by (auto simp add: map_of_del_k split: if_splits)

subsection \<open>The index invariant\<close>

lemma index_inv_consistent:
  assumes "index_inv zkey zscore"
  shows "zset_consistent zkey zscore"
proof -
  from assms have wk: "wf_bucket zkey" and ws: "wf_bucket zscore"
    and len: "\<And>m s. (m, s) \<in> set zscore \<Longrightarrow> length s = 8"
    and keys: "fst ` set zkey = (\<lambda>(m, s). s @ m) ` set zscore"
    and emp: "\<And>k v. (k, v) \<in> set zkey \<Longrightarrow> v = []"
    by (auto simp add: index_inv_def)
  have 1: "(s @ m, []) \<in> set zkey" if "(m, s) \<in> set zscore" for m s
  proof -
    from that have "s @ m \<in> fst ` set zkey" unfolding keys by force
    then obtain v where "(s @ m, v) \<in> set zkey" by force
    with emp show ?thesis by blast
  qed
  have 2: "take 8 k = s"
    if "(m, s) \<in> set zscore" "(k, v) \<in> set zkey" "drop 8 k = m" for m s k v
  proof -
    from that(2) have "k \<in> fst ` set zkey" by force
    then obtain m' s' where ms': "(m', s') \<in> set zscore" "k = s' @ m'"
      unfolding keys by auto
    with len have l: "length s' = 8" by blast
    with ms' that(3) have "m' = m" by simp
    with ms' that(1) ws have "s' = s"
      using map_of_wf [OF ws] by (metis option.inject)
    with l ms' show ?thesis by simp
  qed
  have 3: "\<exists>(m, s) \<in> set zscore. k = s @ m" if "(k, v) \<in> set zkey" for k v
  proof -
    from that have "k \<in> fst ` set zkey" by force
    then show ?thesis unfolding keys by auto
  qed
  show ?thesis
    unfolding zset_consistent_def using 1 2 3 by blast
qed

lemma index_write_inv:
  assumes "index_inv zkey zscore" and "length score = 8" and "key \<noteq> []"
    and "map_of zscore key \<noteq> Some score"
  shows "index_inv (index_write key score zkey zscore) (put_kv key score zscore)"
proof -
  from assms(1) have wk: "wf_bucket zkey" and ws: "wf_bucket zscore"
    and len: "\<And>m s. (m, s) \<in> set zscore \<Longrightarrow> length s = 8 \<and> m \<noteq> []"
    and keys: "fst ` set zkey = (\<lambda>(m, s). s @ m) ` set zscore"
    and emp: "\<And>k v. (k, v) \<in> set zkey \<Longrightarrow> v = []"
    by (auto simp add: index_inv_def)
  let ?zk = "index_write key score zkey zscore"
  let ?zs = "put_kv key score zscore"
  have wk': "wf_bucket ?zk"
    by (simp add: index_write_def wf_put_kv wf_del_k wk split: option.splits)
  have ws': "wf_bucket ?zs" by (simp add: wf_put_kv ws)
  have szs: "set ?zs = insert (key, score) {kv \<in> set zscore. fst kv \<noteq> key}"
    by (rule set_put_kv [OF ws])
  have len': "\<forall>(m, s) \<in> set ?zs. length s = 8 \<and> m \<noteq> []"
    using len assms(2,3) by (auto simp add: szs)
  have emp': "\<forall>(k, v) \<in> set ?zk. v = []"
    using emp
    by (auto simp add: index_write_def set_put_kv [OF wk] set_del_k [OF wf_put_kv [OF wk]]
        split: option.splits)
  have keys': "fst ` set ?zk = (\<lambda>(m, s). s @ m) ` set ?zs"
  proof (cases "map_of zscore key")
    case None
    then have "{kv \<in> set zscore. fst kv \<noteq> key} = set zscore"
      by (auto simp add: map_of_eq_None_iff image_iff)
    with None show ?thesis
      by (simp add: index_write_def keys_put_kv keys szs)
  next
    case (Some old)
    then have old: "(key, old) \<in> set zscore" by (simp add: map_of_wf [OF ws])
    have uniq: "s = old" if "(key, s) \<in> set zscore" for s
      using that Some by (simp add: map_of_wf [OF ws, symmetric])
    from old len have lo: "length old = 8" by blast
    have "fst ` set ?zk = insert (score @ key) (fst ` set zkey) - {old @ key}"
    proof -
      have "fst ` {kv \<in> set (put_kv (score @ key) [] zkey). fst kv \<noteq> old @ key}
          = fst ` set (put_kv (score @ key) [] zkey) - {old @ key}"
        by force
      then show ?thesis
        by (simp add: index_write_def Some set_del_k [OF wf_put_kv [OF wk]] keys_put_kv)
    qed
    moreover have "(\<lambda>(m, s). s @ m) ` set ?zs
        = insert (score @ key) ((\<lambda>(m, s). s @ m) ` set zscore) - {old @ key}"
    proof -
      have ne: "score @ key \<noteq> old @ key"
        using assms(4) Some by simp
      have a: "s @ m \<noteq> old @ key" if "(m, s) \<in> set zscore" "m \<noteq> key" for m s
        using that len [OF that(1)] lo by simp
      have b: "m = key" if "(m, s) \<in> set zscore" "s @ m = old @ key" for m s
        using that len [OF that(1)] lo by simp
      show ?thesis
      proof (intro set_eqI iffI)
        fix x assume "x \<in> (\<lambda>(m, s). s @ m) ` set ?zs"
        then obtain m s where ms: "(m, s) \<in> set ?zs" "x = s @ m" by auto
        from ms(1) consider "m = key" "s = score" | "(m, s) \<in> set zscore" "m \<noteq> key"
          unfolding szs by auto
        then show "x \<in> insert (score @ key) ((\<lambda>(m, s). s @ m) ` set zscore) - {old @ key}"
        proof cases
          case 1
          with ms(2) ne show ?thesis by simp
        next
          case 2
          from a [OF 2] have "x \<noteq> old @ key" by (simp add: ms(2))
          moreover from 2(1) have "x \<in> (\<lambda>(m, s). s @ m) ` set zscore"
            unfolding ms(2) by force
          ultimately show ?thesis by simp
        qed
      next
        fix x assume x: "x \<in> insert (score @ key) ((\<lambda>(m, s). s @ m) ` set zscore) - {old @ key}"
        then consider "x = score @ key"
          | m s where "(m, s) \<in> set zscore" "x = s @ m" "x \<noteq> old @ key"
          by auto
        then show "x \<in> (\<lambda>(m, s). s @ m) ` set ?zs"
        proof cases
          case 1
          have "(key, score) \<in> set ?zs" unfolding szs by simp
          then show ?thesis unfolding 1 by force
        next
          case (2 m s)
          have "m \<noteq> key"
          proof
            assume "m = key"
            with 2(1) uniq have "s = old" by blast
            with 2(2,3) \<open>m = key\<close> show False by simp
          qed
          with 2(1) have "(m, s) \<in> set ?zs" unfolding szs by simp
          then show ?thesis unfolding 2(2) by force
        qed
      qed
    qed
    ultimately show ?thesis by (simp add: keys)
  qed
  show ?thesis
    unfolding index_inv_def using wk' ws' len' keys' emp' by blast
qed

lemma index_delete_inv:
  assumes "index_inv zkey zscore" and "map_of zscore key = Some old"
  shows "index_inv (del_k (old @ key) zkey) (del_k key zscore)"
proof -
  from assms(1) have wk: "wf_bucket zkey" and ws: "wf_bucket zscore"
    and len: "\<And>m s. (m, s) \<in> set zscore \<Longrightarrow> length s = 8 \<and> m \<noteq> []"
    and keys: "fst ` set zkey = (\<lambda>(m, s). s @ m) ` set zscore"
    and emp: "\<And>k v. (k, v) \<in> set zkey \<Longrightarrow> v = []"
    by (auto simp add: index_inv_def)
  from assms(2) have old: "(key, old) \<in> set zscore" by (simp add: map_of_wf [OF ws])
  have uniq: "s = old" if "(key, s) \<in> set zscore" for s
    using that assms(2) by (simp add: map_of_wf [OF ws, symmetric])
  from old len have lo: "length old = 8" by blast
  have b: "m = key" if "(m, s) \<in> set zscore" "s @ m = old @ key" for m s
    using that len [OF that(1)] lo by simp
  have "fst ` set (del_k (old @ key) zkey) = fst ` set zkey - {old @ key}"
    unfolding set_del_k [OF wk] by force
  moreover have "(\<lambda>(m, s). s @ m) ` set (del_k key zscore)
      = (\<lambda>(m, s). s @ m) ` set zscore - {old @ key}"
  proof (intro set_eqI iffI)
    fix x assume "x \<in> (\<lambda>(m, s). s @ m) ` set (del_k key zscore)"
    then obtain m s where ms: "(m, s) \<in> set zscore" "m \<noteq> key" "x = s @ m"
      unfolding set_del_k [OF ws] by auto
    from b [OF ms(1)] ms(2) have "x \<noteq> old @ key" unfolding ms(3) by blast
    moreover from ms(1) have "x \<in> (\<lambda>(m, s). s @ m) ` set zscore"
      unfolding ms(3) by force
    ultimately show "x \<in> (\<lambda>(m, s). s @ m) ` set zscore - {old @ key}" by simp
  next
    fix x assume "x \<in> (\<lambda>(m, s). s @ m) ` set zscore - {old @ key}"
    then obtain m s where ms: "(m, s) \<in> set zscore" "x = s @ m" "x \<noteq> old @ key"
      by auto
    have "m \<noteq> key"
    proof
      assume "m = key"
      with ms(1) uniq have "s = old" by blast
      with ms(2,3) \<open>m = key\<close> show False by simp
    qed
    with ms(1) have "(m, s) \<in> set (del_k key zscore)"
      unfolding set_del_k [OF ws] by simp
    then show "x \<in> (\<lambda>(m, s). s @ m) ` set (del_k key zscore)"
      unfolding ms(2) by force
  qed
  ultimately have "fst ` set (del_k (old @ key) zkey)
      = (\<lambda>(m, s). s @ m) ` set (del_k key zscore)"
    by (simp add: keys)
  moreover have "\<forall>(m, s) \<in> set (del_k key zscore). length s = 8 \<and> m \<noteq> []"
    using len by (auto simp add: set_del_k [OF ws])
  moreover have "\<forall>(k, v) \<in> set (del_k (old @ key) zkey). v = []"
    using emp by (auto simp add: set_del_k [OF wk])
  ultimately show ?thesis
    unfolding index_inv_def using wf_del_k [OF wk] wf_del_k [OF ws] by blast
qed

subsection \<open>The mutating calls preserve the invariant\<close>

lemma contents_create:
  "tx_CreateBucketIfNotExists tx n = Inr tx' \<Longrightarrow> contents tx' m = contents tx m"
  by (auto simp add: tx_CreateBucketIfNotExists_def contents_def split: if_splits option.splits)

lemma contents_upd: "contents (tx(n \<mapsto> b)) m = (if m = n then b else contents tx m)"
  by (simp add: contents_def)

lemma bytes_Equal_opt_8:
  "length score = 8 \<Longrightarrow> bytes_Equal_opt old score = (old = Some score)"
  by (cases old) (auto simp add: bytes_Equal_opt_def)

text \<open>What one index update does to the two buckets, for an 8-byte score.\<close>

lemma zset_update_contents:
  assumes "kbn \<noteq> sbn" and "length score = 8"
  shows "case zset_update kbn sbn key score tx of
      Inl err \<Rightarrow> \<not> valid_member key \<and> map_of (contents tx sbn) key \<noteq> Some score
    | Inr tx' \<Rightarrow>
        (if map_of (contents tx sbn) key = Some score then tx' = tx
         else valid_member key
           \<and> contents tx' kbn = index_write key score (contents tx kbn) (contents tx sbn)
           \<and> contents tx' sbn = put_kv key score (contents tx sbn)
           \<and> (\<forall>n. n \<noteq> kbn \<and> n \<noteq> sbn \<longrightarrow> tx' n = tx n))"
  using assms
  by (auto simp add: zset_update_def bytes_Equal_opt_8 b_Get_def b_Put_def b_Delete_def
      Bconcat_def contents_upd index_write_def valid_member_def Let_def MaxKeySize_def
      MaxValueSize_def split: option.splits)

lemma zset_prologue:
  "\<exists>tx1 tx2.
    tx_CreateBucketIfNotExists db (Bconcat [zetKeyPrefix, S2b name]) = Inr tx1
    \<and> tx_CreateBucketIfNotExists tx1 (Bconcat [zetScorePrefix, S2b name]) = Inr tx2
    \<and> (\<forall>m. contents tx2 m = contents db m)"
proof -
  obtain tx1 where 1: "tx_CreateBucketIfNotExists db (Bconcat [zetKeyPrefix, S2b name]) = Inr tx1"
    using create_Inr [OF bucket_names_nonempty(2)] by blast
  obtain tx2 where 2: "tx_CreateBucketIfNotExists tx1 (Bconcat [zetScorePrefix, S2b name]) = Inr tx2"
    using create_Inr [OF bucket_names_nonempty(3)] by blast
  have "contents tx2 m = contents db m" for m
    using contents_create [OF 1] contents_create [OF 2] by simp
  with 1 2 show ?thesis by blast
qed

lemma Zset_contents:
  "contents (fst (Zset db name key val)) (Bconcat [zetKeyPrefix, S2b name]) =
      (if valid_member key
          \<and> map_of (contents db (Bconcat [zetScorePrefix, S2b name])) key \<noteq> Some (I2b val)
       then index_write key (I2b val) (contents db (Bconcat [zetKeyPrefix, S2b name]))
              (contents db (Bconcat [zetScorePrefix, S2b name]))
       else contents db (Bconcat [zetKeyPrefix, S2b name]))"
  "contents (fst (Zset db name key val)) (Bconcat [zetScorePrefix, S2b name]) =
      (if valid_member key
          \<and> map_of (contents db (Bconcat [zetScorePrefix, S2b name])) key \<noteq> Some (I2b val)
       then put_kv key (I2b val) (contents db (Bconcat [zetScorePrefix, S2b name]))
       else contents db (Bconcat [zetScorePrefix, S2b name]))"
proof -
  let ?kbn = "Bconcat [zetKeyPrefix, S2b name]"
  let ?sbn = "Bconcat [zetScorePrefix, S2b name]"
  obtain tx1 tx2 where c:
    "tx_CreateBucketIfNotExists db ?kbn = Inr tx1"
    "tx_CreateBucketIfNotExists tx1 ?sbn = Inr tx2"
    "\<And>m. contents tx2 m = contents db m"
    using zset_prologue [of db name] by blast
  note u = zset_update_contents [OF zset_bucket_names_distinct [of name] length_I2b [of val],
      where key = key and tx = tx2]
  show "contents (fst (Zset db name key val)) ?kbn =
      (if valid_member key \<and> map_of (contents db ?sbn) key \<noteq> Some (I2b val)
       then index_write key (I2b val) (contents db ?kbn) (contents db ?sbn)
       else contents db ?kbn)"
    using u c by (auto simp add: Zset_def Let_def Update_def split: sum.splits if_splits)
  show "contents (fst (Zset db name key val)) ?sbn =
      (if valid_member key \<and> map_of (contents db ?sbn) key \<noteq> Some (I2b val)
       then put_kv key (I2b val) (contents db ?sbn) else contents db ?sbn)"
    using u c by (auto simp add: Zset_def Let_def Update_def split: sum.splits if_splits)
qed

lemma Zset_inv: "zset_inv db name \<Longrightarrow> zset_inv (fst (Zset db name key val)) name"
  unfolding zset_inv_def Zset_contents
  by (auto simp add: index_write_inv length_I2b valid_member_def)

lemma zset_update_inv:
  assumes "kbn \<noteq> sbn" and "length score = 8"
    and "index_inv (contents tx kbn) (contents tx sbn)"
    and "zset_update kbn sbn key score tx = Inr tx'"
  shows "index_inv (contents tx' kbn) (contents tx' sbn)"
  using zset_update_contents [OF assms(1,2), of key tx] assms(2,3,4)
  by (auto simp add: index_write_inv valid_member_def split: if_splits)

lemma Zmset_loop_inv:
  "kbn \<noteq> sbn \<Longrightarrow> index_inv (contents tx kbn) (contents tx sbn) \<Longrightarrow> scores8 kvs \<Longrightarrow>
    Zmset_loop kbn sbn kvs tx = Inr tx' \<Longrightarrow> index_inv (contents tx' kbn) (contents tx' sbn)"
proof (induction kbn sbn kvs tx rule: Zmset_loop.induct)
  case (1 keyBucket scoreBucket key score rest tx)
  from "1.prems"(4) obtain tx1 where
    u: "zset_update keyBucket scoreBucket key score tx = Inr tx1"
    and l: "Zmset_loop keyBucket scoreBucket rest tx1 = Inr tx'"
    by (auto split: sum.splits)
  from "1.prems"(3) have s: "length score = 8" "scores8 rest" by simp_all
  have "index_inv (contents tx1 keyBucket) (contents tx1 scoreBucket)"
    by (rule zset_update_inv [OF "1.prems"(1) s(1) "1.prems"(2) u])
  then show ?case
    by (rule "1.IH" [OF u "1.prems"(1) _ s(2) l])
qed simp_all

lemma Zmset_inv:
  assumes "zset_inv db name" and "scores8 kvs"
  shows "zset_inv (fst (Zmset db name kvs)) name"
proof -
  let ?kbn = "Bconcat [zetKeyPrefix, S2b name]"
  let ?sbn = "Bconcat [zetScorePrefix, S2b name]"
  obtain tx1 tx2 where c:
    "tx_CreateBucketIfNotExists db ?kbn = Inr tx1"
    "tx_CreateBucketIfNotExists tx1 ?sbn = Inr tx2"
    "\<And>m. contents tx2 m = contents db m"
    using zset_prologue [of db name] by blast
  from assms(1) c(3) have i: "index_inv (contents tx2 ?kbn) (contents tx2 ?sbn)"
    by (simp add: zset_inv_def)
  show ?thesis
  proof (cases "Zmset_loop ?kbn ?sbn kvs tx2")
    case (Inl err)
    with c assms(1) show ?thesis
      by (simp add: Zmset_def Let_def Update_def)
  next
    case (Inr tx')
    from Zmset_loop_inv [OF zset_bucket_names_distinct i assms(2) Inr]
    have "zset_inv tx' name" by (simp add: zset_inv_def)
    with Inr c assms(1) show ?thesis
      by (simp add: Zmset_def Let_def Update_def)
  qed
qed

lemma Zdel_inv:
  assumes "zset_inv db name"
  shows "zset_inv (fst (Zdel db name key)) name"
proof (cases "b_Get db (Bconcat [zetScorePrefix, S2b name]) key")
  case None
  with assms show ?thesis
    by (simp add: Zdel_def Let_def Update_def tx_Bucket_def split: option.splits)
next
  case (Some old)
  let ?kbn = "Bconcat [zetKeyPrefix, S2b name]"
  let ?sbn = "Bconcat [zetScorePrefix, S2b name]"
  from Some have m: "map_of (contents db ?sbn) key = Some old"
    by (simp add: b_Get_def)
  from assms have "index_inv (contents db ?kbn) (contents db ?sbn)"
    by (simp add: zset_inv_def)
  from index_delete_inv [OF this m]
  have "index_inv (del_k (old @ key) (contents db ?kbn)) (del_k key (contents db ?sbn))" .
  with Some assms zset_bucket_names_distinct [of name] show ?thesis
    by (simp add: Zdel_def Let_def Update_def tx_Bucket_def b_Delete_def Bconcat_def
        zset_inv_def contents_upd split: option.splits)
qed

lemma I2b_add_neq:
  assumes "length old = 8" and "step \<noteq> 0"
  shows "I2b (be_uint64 old + step) \<noteq> old"
proof
  assume "I2b (be_uint64 old + step) = old"
  then have "be_uint64 (I2b (be_uint64 old + step)) = be_uint64 old" by simp
  then have "be_uint64 old + step = be_uint64 old" by (simp only: be_uint64_I2b)
  with assms(2) show False by simp
qed

lemma Zincr_tx_inv:
  assumes "zset_inv db name"
    and "step \<noteq> 0 \<or> b_Get db (Bconcat [zetScorePrefix, S2b name]) key = None"
  shows "case Zincr_tx (Bconcat [zetKeyPrefix, S2b name]) (Bconcat [zetScorePrefix, S2b name])
            key step db of
      Panic p \<Rightarrow> False
    | Ret (Inl es) \<Rightarrow> True
    | Ret (Inr (tx', s)) \<Rightarrow> zset_inv tx' name"
proof -
  let ?kbn = "Bconcat [zetKeyPrefix, S2b name]"
  let ?sbn = "Bconcat [zetScorePrefix, S2b name]"
  let ?kb = "contents db ?kbn"
  let ?sb = "contents db ?sbn"
  obtain tx1 tx2 where c:
    "tx_CreateBucketIfNotExists db ?kbn = Inr tx1"
    "tx_CreateBucketIfNotExists tx1 ?sbn = Inr tx2"
    "\<And>m. contents tx2 m = contents db m"
    using zset_prologue [of db name] by blast
  from assms(1) have i: "index_inv ?kb ?sb" by (simp add: zset_inv_def)
  note ne = zset_bucket_names_distinct [of name]
  show ?thesis
  proof (cases "map_of ?sb key")
    case None
    have w: "index_inv (put_kv (I2b new @ key) [] ?kb) (put_kv key (I2b new) ?sb)"
      if "key \<noteq> []" for new
      using index_write_inv [OF i length_I2b that, of new] None
      by (simp add: index_write_def)
    from None c ne w show ?thesis
      by (simp add: Zincr_tx_def b_Get_def b_Put_def b_Delete_def Let_def Bconcat_def
          zset_inv_def contents_upd)
  next
    case (Some old)
    from i Some have lo: "length old = 8"
      by (auto simp add: index_inv_def map_of_wf)
    from Some assms(2) have st: "step \<noteq> 0" by (simp add: b_Get_def)
    have w: "index_inv (del_k (old @ key) (put_kv (I2b (be_uint64 old + step) @ key) [] ?kb))
        (put_kv key (I2b (be_uint64 old + step)) ?sb)"
      if "key \<noteq> []"
      using index_write_inv [OF i length_I2b that, of "be_uint64 old + step"] Some
        I2b_add_neq [OF lo st]
      by (simp add: index_write_def)
    from Some c ne w lo show ?thesis
      by (simp add: Zincr_tx_def b_Get_def b_Put_def b_Delete_def Let_def Bconcat_def
          zset_inv_def contents_upd B2i_def BigEndian_Uint64_def)
  qed
qed

lemma Zincr_inv:
  assumes "zset_inv db name"
    and "step \<noteq> 0 \<or> b_Get db (Bconcat [zetScorePrefix, S2b name]) key = None"
  shows "\<exists>db' s e. Zincr db name key step = Ret (db', s, e) \<and> zset_inv db' name"
  using Zincr_tx_inv [OF assms] assms(1)
  by (auto simp add: Zincr_def Let_def split: go.splits sum.splits prod.splits)

lemma zapply_inv:
  assumes "zset_inv db name" and "admissible db name op"
  shows "\<exists>db'. zapply db name op = Ret db' \<and> zset_inv db' name"
proof (cases op)
  case (ZsetOp key val)
  with assms show ?thesis by (simp add: Zset_inv)
next
  case (ZmsetOp kvs)
  with assms show ?thesis by (simp add: Zmset_inv)
next
  case (ZincrOp key step)
  with assms Zincr_inv [of db name step key] show ?thesis by auto
next
  case (ZdelOp key)
  with assms show ?thesis by (simp add: Zdel_inv)
qed

lemma zrun_inv:
  "zset_inv db name \<Longrightarrow> admissible_run db name ops \<Longrightarrow>
   \<exists>ds. zrun db name ops = Ret ds \<and> length ds = length ops \<and> (\<forall>d \<in> set ds. zset_inv d name)"
proof (induction ops arbitrary: db)
  case Nil
  then show ?case by simp
next
  case (Cons op ops)
  from Cons.prems have a: "admissible db name op" by simp
  from zapply_inv [OF Cons.prems(1) a] obtain db' where
    d: "zapply db name op = Ret db'" "zset_inv db' name" by blast
  with Cons.prems have "admissible_run db' name ops" by simp
  from Cons.IH [OF d(2) this] obtain ds where
    "zrun db' name ops = Ret ds" "length ds = length ops" "\<forall>d \<in> set ds. zset_inv d name"
    by blast
  with d show ?case by simp
qed

lemma consistent_index_inv:
  assumes "engine_bucket zkey" and "engine_bucket zscore"
    and "zset_consistent zkey zscore" and "scores_8_bytes zscore"
  shows "index_inv zkey zscore"
proof -
  from assms(1,2) have wk: "wf_bucket zkey" and ws: "wf_bucket zscore"
    and ne: "\<And>m s. (m, s) \<in> set zscore \<Longrightarrow> m \<noteq> []"
    by (auto simp add: engine_bucket_def image_iff)
  from assms(4) have len: "\<And>m s. (m, s) \<in> set zscore \<Longrightarrow> length s = 8"
    by (auto simp add: scores_8_bytes_def)
  from assms(3) have c1: "\<And>m s. (m, s) \<in> set zscore \<Longrightarrow> (s @ m, []) \<in> set zkey"
    and c3: "\<And>k v. (k, v) \<in> set zkey \<Longrightarrow> \<exists>(m, s) \<in> set zscore. k = s @ m"
    unfolding zset_consistent_def by blast+
  have keys: "fst ` set zkey = (\<lambda>(m, s). s @ m) ` set zscore"
  proof (intro set_eqI iffI)
    fix k assume "k \<in> fst ` set zkey"
    then obtain v where "(k, v) \<in> set zkey" by auto
    from c3 [OF this] show "k \<in> (\<lambda>(m, s). s @ m) ` set zscore" by auto
  next
    fix k assume "k \<in> (\<lambda>(m, s). s @ m) ` set zscore"
    then obtain m s where "(m, s) \<in> set zscore" "k = s @ m" by auto
    with c1 have "(k, []) \<in> set zkey" by simp
    then show "k \<in> fst ` set zkey" by force
  qed
  have emp: "v = []" if "(k, v) \<in> set zkey" for k v
  proof -
    from c3 [OF that] obtain m s where "(m, s) \<in> set zscore" "k = s @ m" by auto
    with c1 have "(k, []) \<in> set zkey" by simp
    with that show ?thesis
      using map_of_wf [OF wk, of k v] map_of_wf [OF wk, of k "[]"] by simp
  qed
  show ?thesis
    unfolding index_inv_def using wk ws len ne keys emp by blast
qed

lemma index_inv_scores:
  assumes "index_inv zkey zscore"
  shows "scores_8_bytes zscore"
  using assms by (auto simp add: index_inv_def scores_8_bytes_def)

text \<open>
  Claim C1, as amended. Start from a store in which the sorted set is absent, or is
  consistent with every stored score exactly 8 bytes long (its two buckets being as the
  engine keeps every bucket: keys ascending, none empty). Run any sequence of
  \<^verbatim>\<open>Zset\<close> and \<^verbatim>\<open>Zdel\<close> calls, \<^verbatim>\<open>Zmset\<close> calls whose scores are 8 bytes long, and
  \<^verbatim>\<open>Zincr\<close> calls whose step is not zero or whose member is not stored yet. Then no
  call panics, and after each call the two index namespaces are consistent: every
  member of the member index with score \<open>s\<close> has the composite key \<open>s \<parallel> m\<close> in the
  score index, no composite key gives it another score, and every composite key has
  its member-index entry; and every stored score is still 8 bytes long.
\<close>

theorem zset_consistency_invariant:
  assumes "engine_bucket (contents db (Bconcat [zetKeyPrefix, S2b name]))"
    and "engine_bucket (contents db (Bconcat [zetScorePrefix, S2b name]))"
    and "zset_consistent (contents db (Bconcat [zetKeyPrefix, S2b name]))
           (contents db (Bconcat [zetScorePrefix, S2b name]))"
    and "scores_8_bytes (contents db (Bconcat [zetScorePrefix, S2b name]))"
    and "admissible_run db name ops"
  shows "\<exists>ds. zrun db name ops = Ret ds \<and> length ds = length ops \<and>
    (\<forall>d \<in> set ds.
       zset_consistent (contents d (Bconcat [zetKeyPrefix, S2b name]))
         (contents d (Bconcat [zetScorePrefix, S2b name]))
       \<and> scores_8_bytes (contents d (Bconcat [zetScorePrefix, S2b name])))"
proof -
  have "zset_inv db name"
    unfolding zset_inv_def using assms(1-4) by (rule consistent_index_inv)
  from zrun_inv [OF this assms(5)] obtain ds where
    ds: "zrun db name ops = Ret ds" "length ds = length ops" "\<forall>d \<in> set ds. zset_inv d name"
    by blast
  from ds(3) have "\<forall>d \<in> set ds.
       zset_consistent (contents d (Bconcat [zetKeyPrefix, S2b name]))
         (contents d (Bconcat [zetScorePrefix, S2b name]))
       \<and> scores_8_bytes (contents d (Bconcat [zetScorePrefix, S2b name]))"
    using index_inv_consistent index_inv_scores by (auto simp add: zset_inv_def)
  with ds(1,2) show ?thesis by blast
qed

theorem zset_consistency_invariant_witness:
  "engine_bucket (contents Map.empty (Bconcat [zetKeyPrefix, S2b ''s'']))
   \<and> engine_bucket (contents Map.empty (Bconcat [zetScorePrefix, S2b ''s'']))
   \<and> zset_consistent (contents Map.empty (Bconcat [zetKeyPrefix, S2b ''s'']))
         (contents Map.empty (Bconcat [zetScorePrefix, S2b ''s'']))
   \<and> scores_8_bytes (contents Map.empty (Bconcat [zetScorePrefix, S2b ''s'']))
   \<and> admissible_run Map.empty ''s'' zops_example
   \<and> (\<exists>ds. zrun Map.empty ''s'' zops_example = Ret ds
         \<and> length ds = length zops_example
         \<and> (\<forall>d \<in> set ds.
               zset_consistent (contents d (Bconcat [zetKeyPrefix, S2b ''s'']))
                 (contents d (Bconcat [zetScorePrefix, S2b ''s'']))
               \<and> scores_8_bytes (contents d (Bconcat [zetScorePrefix, S2b ''s'']))))"
proof -
  have e: "engine_bucket (contents Map.empty (Bconcat [zetKeyPrefix, S2b ''s'']))"
    "engine_bucket (contents Map.empty (Bconcat [zetScorePrefix, S2b ''s'']))"
    by (simp_all add: engine_bucket_def contents_def wf_bucket_def)
  have c: "zset_consistent (contents Map.empty (Bconcat [zetKeyPrefix, S2b ''s'']))
         (contents Map.empty (Bconcat [zetScorePrefix, S2b ''s'']))"
    by (simp add: zset_consistent_def contents_def)
  have s: "scores_8_bytes (contents Map.empty (Bconcat [zetScorePrefix, S2b ''s'']))"
    by (simp add: scores_8_bytes_def contents_def)
  have a: "admissible_run Map.empty ''s'' zops_example"
    by (simp add: zops_example_def length_I2b split: go.splits)
  from zset_consistency_invariant [OF e c s a] e c s a show ?thesis by blast
qed

theorem zset_consistency_counterexample:
  "\<not> zset_consistent
      (contents (fst (Zdel (fst (Zmset Map.empty ''s'' [[97, 98], [99], [98], [99, 97]])) ''s'' [97, 98]))
         (Bconcat [zetKeyPrefix, S2b ''s'']))
      (contents (fst (Zdel (fst (Zmset Map.empty ''s'' [[97, 98], [99], [98], [99, 97]])) ''s'' [97, 98]))
         (Bconcat [zetScorePrefix, S2b ''s'']))"
  by (simp add: Zmset_def Zdel_def zset_update_def bytes_Equal_opt_def bolt_defs codec_defs
      const_defs zset_consistent_def Let_def)

text \<open>
  \<^verbatim>\<open>Zincr\<close> with step 0 on a stored member puts the composite key it is about to
  delete: the old and the new composite key are the same, the score index loses the
  entry and the member index keeps the member.
\<close>

lemma Zincr_zero_step_drops_index_entry:
  "Zincr (fst (Zset Map.empty ''s'' [97] 5)) ''s'' [97] 0
     = Ret (Map.empty(Bconcat [zetKeyPrefix, S2b ''s''] \<mapsto> [],
                      Bconcat [zetScorePrefix, S2b ''s''] \<mapsto> [([97], I2b 5)]), 5, None)
   \<and> \<not> zset_consistent [] [([97], I2b 5)]"
  by (simp add: Zset_def Zincr_def Zincr_tx_def zset_update_def bytes_Equal_opt_def bolt_defs
      codec_defs const_defs Let_def I2b_not_Nil length_I2b B2i_I2b fun_upd_twist
      zset_consistent_def)

subsection \<open>The byte order of encoded scores\<close>

lemma length_be_bytes: "length (be_bytes n N) = n"
  by (induction n) simp_all

lemma unat_byte_of_nat: "unat (of_nat (m mod 256) :: byte) = m mod 256"
  by (simp add: unat_of_nat)

lemma be_nat_be_bytes: "be_nat (be_bytes n N) = N mod 256 ^ n"
proof (induction n)
  case 0
  show ?case by simp
next
  case (Suc n)
  have "N mod (256 ^ n * 256) = 256 ^ n * (N div 256 ^ n mod 256) + N mod 256 ^ n"
    by (rule mod_mult2_eq)
  with Suc show ?case
    by (simp add: length_be_bytes unat_byte_of_nat mult.commute)
qed

lemma be_nat_bound: "be_nat bs < 256 ^ length bs"
proof (induction bs)
  case Nil
  show ?case by simp
next
  case (Cons b bs)
  define P :: nat where "P = 256 ^ length bs"
  have "unat b < 256" using unsigned_less [of b, where ?'a = nat] by simp
  then have "unat b \<le> 255" by simp
  then have "unat b * P \<le> 255 * P" by (rule mult_le_mono1)
  moreover from Cons have "be_nat bs < P" by (simp add: P_def)
  ultimately have "unat b * P + be_nat bs < 255 * P + P" by (rule add_le_less_mono)
  then have "unat b * P + be_nat bs < 256 * P" by simp
  then show ?case by (simp add: P_def)
qed

lemma digit_less:
  fixes a b r s P :: nat
  assumes "r < P" and "s < P"
  shows "(a * P + r < b * P + s) = (a < b \<or> a = b \<and> r < s)"
proof (cases "a < b")
  case True
  then have "Suc a \<le> b" by simp
  then have "Suc a * P \<le> b * P" by (rule mult_le_mono1)
  with assms(1) True show ?thesis by simp
next
  case False
  show ?thesis
  proof (cases "a = b")
    case True
    then show ?thesis by simp
  next
    case ne: False
    with False have "Suc b \<le> a" by simp
    then have "Suc b * P \<le> a * P" by (rule mult_le_mono1)
    with assms(2) False ne show ?thesis by simp
  qed
qed

lemma be_nat_less: "length a = length b \<Longrightarrow> (a < b) = (be_nat a < be_nat b)"
proof (induction a b rule: list_induct2)
  case Nil
  show ?case by simp
next
  case (Cons x xs y ys)
  have "(unat x * 256 ^ length ys + be_nat xs < unat y * 256 ^ length ys + be_nat ys)
      = (unat x < unat y \<or> unat x = unat y \<and> be_nat xs < be_nat ys)"
    using be_nat_bound [of xs] be_nat_bound [of ys] Cons.hyps
    by (intro digit_less) simp_all
  with Cons show ?case
    by (simp add: word_less_nat_alt word_unat_eq_iff)
qed

lemma be_bytes_8:
  "be_bytes 8 N = [of_nat (N div 2 ^ 56 mod 256), of_nat (N div 2 ^ 48 mod 256),
     of_nat (N div 2 ^ 40 mod 256), of_nat (N div 2 ^ 32 mod 256),
     of_nat (N div 2 ^ 24 mod 256), of_nat (N div 2 ^ 16 mod 256),
     of_nat (N div 2 ^ 8 mod 256), of_nat (N mod 256)]"
proof -
  have "(8::nat) = Suc (Suc (Suc (Suc (Suc (Suc (Suc (Suc 0)))))))" by simp
  then show ?thesis
    by (simp only: be_bytes.simps) simp
qed

lemma I2b_be_bytes: "I2b x = be_bytes 8 (unat x)"
proof -
  have b: "ucast (drop_bit k x) = (of_nat (unat x div 2 ^ k mod 256) :: byte)" for k
    unfolding word_unat_eq_iff
    by (simp add: unat_byte_of_nat unsigned_ucast_eq unat_drop_bit_eq)
       (simp add: take_bit_eq_mod drop_bit_eq_div)
  have b0: "ucast x = (of_nat (unat x mod 256) :: byte)"
    using b [of 0] by simp
  show ?thesis
    unfolding I2b_def be_bytes_8 b b0 by (rule refl)
qed

lemma be_nat_I2b: "be_nat (I2b x) = unat x"
  using unat_lt_2p64 [of x] by (simp add: I2b_be_bytes be_nat_be_bytes length_be_bytes)

lemma I2b_less_iff: "(I2b x < I2b y) = (x < y)"
  by (simp add: be_nat_less length_I2b be_nat_I2b word_less_nat_alt)

lemma I2b_inj: "(I2b x = I2b y) = (x = y)"
  by (metis be_uint64_I2b)

subsection \<open>Scans from the default start\<close>

lemma Zscan_loop_filter:
  "\<forall>kv \<in> set xs. bytes_Compare (fst kv) start = cmp \<longrightarrow> 8 \<le> length (fst kv) \<Longrightarrow>
   limit \<le> n \<or> n + int (length (filter (\<lambda>kv. bytes_Compare (fst kv) start = cmp) xs)) \<le> limit \<Longrightarrow>
   Zscan_loop cmp start limit xs n r =
     Ret (r\<lparr>State := (if filter (\<lambda>kv. bytes_Compare (fst kv) start = cmp) xs = []
                       then State r else replyOK),
            Data := Data r @ concat (map (\<lambda>kv. [drop 8 (fst kv), take 8 (fst kv)])
                     (filter (\<lambda>kv. bytes_Compare (fst kv) start = cmp) xs))\<rparr>)"
proof (induction xs arbitrary: n r)
  case Nil
  show ?case by simp
next
  case (Cons a xs)
  obtain k v where a: "a = (k, v)" by (cases a)
  show ?case
  proof (cases "bytes_Compare k start = cmp")
    case False
    with Cons.prems have "Zscan_loop cmp start limit xs n r =
      Ret (r\<lparr>State := (if filter (\<lambda>kv. bytes_Compare (fst kv) start = cmp) xs = []
                       then State r else replyOK),
            Data := Data r @ concat (map (\<lambda>kv. [drop 8 (fst kv), take 8 (fst kv)])
                     (filter (\<lambda>kv. bytes_Compare (fst kv) start = cmp) xs))\<rparr>)"
      by (intro Cons.IH) (simp_all add: a)
    with False show ?thesis by (simp add: a)
  next
    case True
    with Cons.prems(1) have len: "\<not> length k < 8" by (simp add: a)
    let ?sel = "filter (\<lambda>kv. bytes_Compare (fst kv) start = cmp) xs"
    let ?r' = "r\<lparr>State := replyOK, Data := Data r @ [drop 8 k, take 8 k]\<rparr>"
    show ?thesis
    proof (cases "n + 1 = limit")
      case brk: True
      from Cons.prems(2) True brk have "n + (1 + int (length ?sel)) \<le> n + 1"
        by (simp add: a)
      then have "?sel = []" by simp
      with True len brk show ?thesis by (simp add: a Let_def)
    next
      case cont: False
      from Cons.prems(2) True have "limit \<le> n + 1 \<or> n + 1 + int (length ?sel) \<le> limit"
        by (auto simp add: a)
      with Cons.prems(1) have "Zscan_loop cmp start limit xs (n + 1) ?r' =
        Ret (?r'\<lparr>State := (if ?sel = [] then State ?r' else replyOK),
            Data := Data ?r' @ concat (map (\<lambda>kv. [drop 8 (fst kv), take 8 (fst kv)]) ?sel)\<rparr>)"
        by (intro Cons.IH) simp_all
      with True len cont show ?thesis by (simp add: a Let_def)
    qed
  qed
qed

lemma List_loop_pairs:
  "List_loop (concat (map (\<lambda>kv. [f kv, g kv]) xs)) = map (\<lambda>kv. \<lparr>Key = f kv, Value = g kv\<rparr>) xs"
  by (induction xs) simp_all

lemma Reply_List_eq: "Reply_List r = List_loop (Data r)"
  by (cases "Data r") (simp_all add: Reply_List_def)

lemma not_less_zeros: "n \<le> length k \<Longrightarrow> \<not> k < replicate n (0 :: byte)"
proof (induction n arbitrary: k)
  case 0
  show ?case by simp
next
  case (Suc n)
  then obtain a k' where k: "k = a # k'" by (cases k) auto
  with Suc show ?case by (auto simp add: word_less_nat_alt)
qed

lemma I2b_zero: "I2b 0 = replicate 8 0"
  by (simp add: I2b_def eval_nat_numeral)

lemma dropWhile_none: "\<forall>x \<in> set xs. \<not> P x \<Longrightarrow> dropWhile P xs = xs"
  by (cases xs) simp_all

lemma less_append_same_length:
  "length a = length b \<Longrightarrow> (a @ x < b @ y) = (a < b \<or> a = b \<and> x < y)"
  by (induction a b rule: list_induct2) auto

lemma distinct_record_pair:
  "distinct (map fst acc) \<Longrightarrow> distinct (map fst (record_pair acc p))"
  by (auto simp add: record_pair_def distinct_map_filter)

lemma insert_filter_key:
  fixes acc :: "('a \<times> 'b) list"
  assumes mem: "(key, val) \<in> set acc"
    and uq: "\<And>q. q \<in> set acc \<Longrightarrow> fst q = key \<Longrightarrow> q = (key, val)"
  shows "insert (key, val) {q \<in> set acc. fst q \<noteq> key} = set acc"
  using mem uq by blast

lemma filter_key_image:
  fixes f :: "'b \<Rightarrow> 'c"
  shows "{kv \<in> (\<lambda>(m, s). (m, f s)) ` A. fst kv \<noteq> key}
          = (\<lambda>(m, s). (m, f s)) ` {q \<in> A. fst q \<noteq> key}"
proof -
  have f: "fst ((\<lambda>(m, s). (m, f s)) q) = fst q" for q :: "'a \<times> 'b"
    by (cases q) simp
  show ?thesis
  proof (intro set_eqI iffI)
    fix x assume "x \<in> {kv \<in> (\<lambda>(m, s). (m, f s)) ` A. fst kv \<noteq> key}"
    then obtain q where "q \<in> A" "x = (\<lambda>(m, s). (m, f s)) q" "fst x \<noteq> key" by blast
    then have "q \<in> {q \<in> A. fst q \<noteq> key}" by (simp add: f)
    with \<open>x = (\<lambda>(m, s). (m, f s)) q\<close> show "x \<in> (\<lambda>(m, s). (m, f s)) ` {q \<in> A. fst q \<noteq> key}"
      by blast
  next
    fix x assume "x \<in> (\<lambda>(m, s). (m, f s)) ` {q \<in> A. fst q \<noteq> key}"
    then obtain q where "q \<in> A" "fst q \<noteq> key" "x = (\<lambda>(m, s). (m, f s)) q" by blast
    then show "x \<in> {kv \<in> (\<lambda>(m, s). (m, f s)) ` A. fst kv \<noteq> key}"
      by (simp add: f)
  qed
qed

lemma Zset_record:
  assumes "zset_inv db name"
    and "set (contents db (Bconcat [zetScorePrefix, S2b name])) = (\<lambda>(m, s). (m, I2b s)) ` set acc"
    and "distinct (map fst acc)"
  shows "set (contents (fst (Zset db name key val)) (Bconcat [zetScorePrefix, S2b name]))
    = (\<lambda>(m, s). (m, I2b s)) ` set (record_pair acc (key, val))"
proof -
  let ?sb = "contents db (Bconcat [zetScorePrefix, S2b name])"
  from assms(1) have ws: "wf_bucket ?sb" by (simp add: zset_inv_def index_inv_def)
  show ?thesis
  proof (cases "valid_member key")
    case False
    then show ?thesis by (simp add: Zset_contents record_pair_def assms(2))
  next
    case True
    show ?thesis
    proof (cases "map_of ?sb key = Some (I2b val)")
      case same: True
      then have "(key, I2b val) \<in> set ?sb" by (simp add: map_of_wf [OF ws])
      then obtain v0 where v0: "(key, v0) \<in> set acc" "I2b v0 = I2b val"
        unfolding assms(2) by auto
      then have "v0 = val" by (simp add: I2b_inj)
      with v0 have mem: "(key, val) \<in> set acc" by simp
      have "q = (key, val)" if "q \<in> set acc" "fst q = key" for q
        using that mem assms(3) by (metis eq_key_imp_eq_value prod.collapse)
      with mem have "insert (key, val) {q \<in> set acc. fst q \<noteq> key} = set acc"
        by (intro insert_filter_key)
      with True same show ?thesis
        by (simp add: Zset_contents record_pair_def assms(2))
    next
      case diff: False
      have "{kv \<in> (\<lambda>(m, s). (m, I2b s)) ` set acc. fst kv \<noteq> key}
          = (\<lambda>(m, s). (m, I2b s)) ` {q \<in> set acc. fst q \<noteq> key}"
        by (rule filter_key_image)
      with True diff show ?thesis
        by (simp add: Zset_contents record_pair_def set_put_kv [OF ws] assms(2))
    qed
  qed
qed

lemma zpopulate_inv:
  "zset_inv db name \<Longrightarrow>
   set (contents db (Bconcat [zetScorePrefix, S2b name])) = (\<lambda>(m, s). (m, I2b s)) ` set acc \<Longrightarrow>
   distinct (map fst acc) \<Longrightarrow>
   zset_inv (zpopulate db name ins) name
   \<and> set (contents (zpopulate db name ins) (Bconcat [zetScorePrefix, S2b name]))
       = (\<lambda>(m, s). (m, I2b s)) ` set (foldl record_pair acc ins)
   \<and> distinct (map fst (foldl record_pair acc ins))"
proof (induction ins arbitrary: db acc)
  case Nil
  then show ?case by simp
next
  case (Cons p ins)
  obtain key val where p: "p = (key, val)" by (cases p)
  have "zset_inv (fst (Zset db name key val)) name"
    using Cons.prems(1) by (rule Zset_inv)
  moreover note Zset_record [OF Cons.prems, of key val]
  moreover have "distinct (map fst (record_pair acc (key, val)))"
    using Cons.prems(3) by (rule distinct_record_pair)
  ultimately show ?case
    unfolding p by (simp add: Cons.IH)
qed

lemma List_loop_composite:
  "List_loop (concat (map (\<lambda>kv. [drop 8 (fst kv), take 8 (fst kv)]) xs)) = map composite_entry xs"
  by (induction xs) (simp_all add: composite_entry_def)

lemma Zscan_default:
  assumes "\<forall>kv \<in> set (contents db (Bconcat [zetKeyPrefix, S2b name])). 9 \<le> length (fst kv)"
    and "limit \<le> 0 \<or> int (length (contents db (Bconcat [zetKeyPrefix, S2b name]))) \<le> limit"
  shows "\<exists>r. Zscan db name [] [] limit = Ret r
    \<and> Reply_List r = map composite_entry (contents db (Bconcat [zetKeyPrefix, S2b name]))"
proof (cases "db (Bconcat [zetKeyPrefix, S2b name])")
  case None
  then show ?thesis
    by (simp add: Zscan_def tx_Bucket_def contents_def Reply_List_eq Let_def)
next
  case (Some kb)
  then have c: "contents db (Bconcat [zetKeyPrefix, S2b name]) = kb"
    by (simp add: contents_def)
  have z: "I2b scoreMin = replicate 8 0"
    by (simp add: scoreMin_def I2b_zero)
  have K: "9 \<le> length (fst kv)" if "kv \<in> set kb" for kv
    using that assms(1) c by simp
  have nl: "\<not> fst kv < I2b scoreMin" if "kv \<in> set kb" for kv
    unfolding z using K [OF that] by (intro not_less_zeros) simp
  have ne: "fst kv \<noteq> I2b scoreMin" if "kv \<in> set kb" for kv
    using K [OF that] length_I2b [of scoreMin] by auto
  have cmp: "bytes_Compare (fst kv) (I2b scoreMin) = 1" if "kv \<in> set kb" for kv
    using nl [OF that] ne [OF that] by (simp add: bytes_Compare_def)
  have seek: "Seek_then_Next kb (I2b scoreMin) = kb"
    unfolding Seek_then_Next_def using nl by (intro dropWhile_none) blast
  have sel: "filter (\<lambda>kv. bytes_Compare (fst kv) (I2b scoreMin) = 1) kb = kb"
    using cmp by (simp add: filter_id_conv)
  have "Zscan_loop 1 (I2b scoreMin) limit kb 0 \<lparr>State = replyError, Data = []\<rparr> =
     Ret (\<lparr>State = replyError, Data = []\<rparr>\<lparr>State := (if filter (\<lambda>kv. bytes_Compare (fst kv) (I2b scoreMin) = 1) kb = []
                       then State \<lparr>State = replyError, Data = []\<rparr> else replyOK),
            Data := Data \<lparr>State = replyError, Data = []\<rparr> @ concat (map (\<lambda>kv. [drop 8 (fst kv), take 8 (fst kv)])
                     (filter (\<lambda>kv. bytes_Compare (fst kv) (I2b scoreMin) = 1) kb))\<rparr>)"
    using assms c by (intro Zscan_loop_filter) (auto simp add: sel)
  moreover have "Bconcat [I2b scoreMin, []] = I2b scoreMin"
    by (simp add: Bconcat_def)
  ultimately show ?thesis
    using Some
    by (simp add: Zscan_def tx_Bucket_def Let_def seek sel c Reply_List_eq
        List_loop_composite)
qed

lemma Zrscan_default:
  assumes "\<forall>kv \<in> set (contents db (Bconcat [zetKeyPrefix, S2b name])). 9 \<le> length (fst kv)"
    and "limit \<le> 0 \<or> int (length (contents db (Bconcat [zetKeyPrefix, S2b name]))) \<le> limit"
  shows "\<exists>r. Zrscan db name [] [] limit = Ret r
    \<and> Reply_List r = map composite_entry
        (filter (\<lambda>kv. fst kv < Bconcat [I2b scoreMax, [255]])
           (rev (contents db (Bconcat [zetKeyPrefix, S2b name]))))"
proof (cases "db (Bconcat [zetKeyPrefix, S2b name])")
  case None
  then show ?thesis
    by (simp add: Zrscan_def tx_Bucket_def contents_def Reply_List_eq Let_def)
next
  case (Some kb)
  then have c: "contents db (Bconcat [zetKeyPrefix, S2b name]) = kb"
    by (simp add: contents_def)
  let ?s = "Bconcat [I2b scoreMax, [255]]"
  have cmp: "(bytes_Compare k ?s = - 1) = (k < ?s)" for k
    by (simp add: bytes_Compare_def)
  have "length (filter (\<lambda>kv. fst kv < ?s) (rev kb)) \<le> length kb"
    using length_filter_le [of _ "rev kb"] by simp
  with assms(2) have lim: "limit \<le> 0 \<or> 0 + int (length (filter (\<lambda>kv. fst kv < ?s) (rev kb))) \<le> limit"
    by (auto simp add: c)
  have "Zscan_loop (- 1) ?s limit (rev kb) 0 \<lparr>State = replyError, Data = []\<rparr> =
     Ret (\<lparr>State = replyError, Data = []\<rparr>\<lparr>State := (if filter (\<lambda>kv. bytes_Compare (fst kv) ?s = - 1) (rev kb) = []
                       then State \<lparr>State = replyError, Data = []\<rparr> else replyOK),
            Data := Data \<lparr>State = replyError, Data = []\<rparr> @ concat (map (\<lambda>kv. [drop 8 (fst kv), take 8 (fst kv)])
                     (filter (\<lambda>kv. bytes_Compare (fst kv) ?s = - 1) (rev kb)))\<rparr>)"
    using assms(1) lim c by (intro Zscan_loop_filter) (auto simp add: cmp)
  then show ?thesis
    using Some
    by (simp add: Zrscan_def tx_Bucket_def Let_def Last_then_Prev_def c cmp Reply_List_eq
        List_loop_composite)
qed

lemma composite_append:
  "length s = 8 \<Longrightarrow> composite_entry (s @ m, v) = \<lparr>Key = m, Value = s\<rparr>"
  by (simp add: composite_entry_def)

lemma below_sentinel_composite:
  "below_sentinel (composite_entry kv) = (fst kv < Bconcat [I2b scoreMax, [255]])"
  by (simp add: below_sentinel_def composite_entry_def)

lemma rev_filter_entries:
  "rev (filter below_sentinel (map composite_entry kb))
     = map composite_entry (filter (\<lambda>kv. fst kv < Bconcat [I2b scoreMax, [255]]) (rev kb))"
  by (simp add: filter_map rev_map rev_filter o_def below_sentinel_composite)

lemma composite_key_inj:
  "I2b v @ m = I2b v' @ m' \<Longrightarrow> m = m' \<and> v = v'"
  using length_I2b [of v] length_I2b [of v'] by (auto simp add: I2b_inj)

lemma populated_index:
  assumes "contents db (Bconcat [zetKeyPrefix, S2b name]) = []"
    and "contents db (Bconcat [zetScorePrefix, S2b name]) = []"
  shows "wf_bucket (contents (zpopulate db name ins) (Bconcat [zetKeyPrefix, S2b name]))"
    and "fst ` set (contents (zpopulate db name ins) (Bconcat [zetKeyPrefix, S2b name]))
          = (\<lambda>(m, v). I2b v @ m) ` set (final_pairs ins)"
    and "distinct (final_pairs ins)"
    and "\<forall>(m, v) \<in> set (final_pairs ins). m \<noteq> []"
proof -
  let ?kb = "contents (zpopulate db name ins) (Bconcat [zetKeyPrefix, S2b name])"
  let ?sb = "contents (zpopulate db name ins) (Bconcat [zetScorePrefix, S2b name])"
  have i0: "zset_inv db name"
    by (simp add: zset_inv_def assms index_inv_def wf_bucket_def)
  have s0: "set (contents db (Bconcat [zetScorePrefix, S2b name]))
      = (\<lambda>(m, s). (m, I2b s)) ` set []"
    by (simp add: assms)
  from zpopulate_inv [OF i0 s0, of ins]
  have i: "index_inv ?kb ?sb"
    and s: "set ?sb = (\<lambda>(m, s). (m, I2b s)) ` set (final_pairs ins)"
    and d: "distinct (map fst (final_pairs ins))"
    by (simp_all add: zset_inv_def final_pairs_def)
  from i show "wf_bucket ?kb" by (simp add: index_inv_def)
  from i have "fst ` set ?kb = (\<lambda>(m, s). s @ m) ` set ?sb" by (simp add: index_inv_def)
  also have "\<dots> = (\<lambda>(m, v). I2b v @ m) ` set (final_pairs ins)"
    unfolding s by (simp add: image_image split_def)
  finally show "fst ` set ?kb = (\<lambda>(m, v). I2b v @ m) ` set (final_pairs ins)" .
  from d show "distinct (final_pairs ins)" by (simp add: distinct_map)
  from i have "\<forall>(m, s) \<in> set ?sb. m \<noteq> []" by (auto simp add: index_inv_def)
  then show "\<forall>(m, v) \<in> set (final_pairs ins). m \<noteq> []"
    unfolding s by auto
qed

lemma composite_inj_on: "inj_on (\<lambda>(m, v). I2b v @ m) A"
proof (rule inj_onI)
  fix x y :: "bytes \<times> uint64"
  assume "(case x of (m, v) \<Rightarrow> I2b v @ m) = (case y of (m, v) \<Rightarrow> I2b v @ m)"
  then show "x = y"
    by (cases x, cases y) (simp add: composite_key_inj)
qed

text \<open>
  Claim C6, as amended. For a sorted set that is empty or absent and is then populated by
  \<^verbatim>\<open>Zset\<close> calls in any order, a forward \<^verbatim>\<open>Zscan\<close> from the default start with a limit
  that is not positive or is at least the number of pairs returns all pairs, in strictly
  ascending (score, member-bytes) order; \<^verbatim>\<open>Zrscan\<close> from the default start returns the
  reverse of that sequence without the pairs whose composite key is not below the
  default start key of the reverse scan (the maximal score followed by the byte 255).
\<close>

theorem zscan_order:
  assumes "contents db (Bconcat [zetKeyPrefix, S2b name]) = []"
    and "contents db (Bconcat [zetScorePrefix, S2b name]) = []"
    and "limit \<le> 0 \<or> int (length (final_pairs ins)) \<le> limit"
  shows "\<exists>r r'. Zscan (zpopulate db name ins) name [] [] limit = Ret r
    \<and> Zrscan (zpopulate db name ins) name [] [] limit = Ret r'
    \<and> sorted_wrt entry_less (Reply_List r)
    \<and> set (Reply_List r) = (\<lambda>(m, v). \<lparr>Key = m, Value = I2b v\<rparr>) ` set (final_pairs ins)
    \<and> Reply_List r' = rev (filter below_sentinel (Reply_List r))"
proof -
  let ?db = "zpopulate db name ins"
  let ?kb = "contents ?db (Bconcat [zetKeyPrefix, S2b name])"
  let ?acc = "final_pairs ins"
  note p = populated_index [OF assms(1,2), of ins]
  have key: "\<exists>m v. (m, v) \<in> set ?acc \<and> m \<noteq> [] \<and> fst kv = I2b v @ m" if "kv \<in> set ?kb" for kv
  proof -
    from that have "fst kv \<in> fst ` set ?kb" by (rule imageI)
    then have "fst kv \<in> (\<lambda>(m, v). I2b v @ m) ` set ?acc"
      by (simp only: p(2))
    then obtain mv where mv: "mv \<in> set ?acc" "fst kv = (\<lambda>(m, v). I2b v @ m) mv"
      by (rule imageE)
    obtain m v where "mv = (m, v)" by (cases mv)
    with mv p(4) have "(m, v) \<in> set ?acc" "m \<noteq> []" "fst kv = I2b v @ m"
      by auto
    then show ?thesis by blast
  qed
  have K: "\<forall>kv \<in> set ?kb. 9 \<le> length (fst kv)"
  proof
    fix kv assume "kv \<in> set ?kb"
    from key [OF this] obtain m v where "m \<noteq> []" "fst kv = I2b v @ m" by blast
    then show "9 \<le> length (fst kv)"
      by (cases m) (simp_all add: length_I2b)
  qed
  have len: "length ?kb = length ?acc"
  proof -
    have "inj_on (\<lambda>(m, v). I2b v @ m) (set ?acc)"
      by (rule composite_inj_on)
    then have "card ((\<lambda>(m, v). I2b v @ m) ` set ?acc) = card (set ?acc)"
      by (rule card_image)
    also have "\<dots> = length ?acc"
      using p(3) by (rule distinct_card)
    finally have "card (fst ` set ?kb) = length ?acc"
      by (simp only: p(2))
    moreover have "card (set (map fst ?kb)) = length (map fst ?kb)"
      using wf_distinct [OF p(1)] by (rule distinct_card)
    ultimately show ?thesis by simp
  qed
  from assms(3) have lim: "limit \<le> 0 \<or> int (length ?kb) \<le> limit"
    by (simp add: len)
  from Zscan_default [OF K lim] obtain r where
    r: "Zscan ?db name [] [] limit = Ret r" "Reply_List r = map composite_entry ?kb"
    by blast
  from Zrscan_default [OF K lim] obtain r' where
    r': "Zrscan ?db name [] [] limit = Ret r'"
      "Reply_List r' = map composite_entry
        (filter (\<lambda>kv. fst kv < Bconcat [I2b scoreMax, [255]]) (rev ?kb))"
    by blast
  have srt: "sorted_wrt entry_less (Reply_List r)"
  proof -
    have "sorted_wrt (\<lambda>x y. fst x < fst y) ?kb"
      using p(1) by (simp add: wf_bucket_def sorted_wrt_map)
    moreover have "entry_less (composite_entry x) (composite_entry y)"
      if "x \<in> set ?kb" "y \<in> set ?kb" "fst x < fst y" for x y
    proof -
      from key [OF that(1)] obtain m v where x: "fst x = I2b v @ m" by blast
      from key [OF that(2)] obtain m' v' where y: "fst y = I2b v' @ m'" by blast
      from that(3) have "I2b v < I2b v' \<or> I2b v = I2b v' \<and> m < m'"
        unfolding x y by (simp add: less_append_same_length length_I2b)
      then have "v < v' \<or> v = v' \<and> m < m'"
        by (simp add: I2b_less_iff I2b_inj)
      then show ?thesis
        by (simp add: entry_less_def composite_entry_def x y length_I2b be_uint64_I2b)
    qed
    ultimately have "sorted_wrt (\<lambda>x y. entry_less (composite_entry x) (composite_entry y)) ?kb"
      by (rule sorted_wrt_mono_rel [rotated])
    then show ?thesis by (simp add: r(2) sorted_wrt_map)
  qed
  have st: "set (Reply_List r) = (\<lambda>(m, v). \<lparr>Key = m, Value = I2b v\<rparr>) ` set ?acc"
  proof -
    have "composite_entry kv = \<lparr>Key = drop 8 (fst kv), Value = take 8 (fst kv)\<rparr>" for kv
      by (simp add: composite_entry_def)
    then have "composite_entry ` set ?kb
        = (\<lambda>k. \<lparr>Key = drop 8 k, Value = take 8 k\<rparr>) ` (fst ` set ?kb)"
      by (simp add: image_image)
    also have "\<dots> = (\<lambda>(m, v). \<lparr>Key = m, Value = I2b v\<rparr>) ` set ?acc"
      unfolding p(2) by (simp add: image_image split_def length_I2b)
    finally show ?thesis by (simp add: r(2))
  qed
  have "Reply_List r' = rev (filter below_sentinel (Reply_List r))"
    by (simp only: r(2) r'(2) rev_filter_entries)
  with r(1) r'(1) srt st show ?thesis by blast
qed

lemma final_pairs_scenario_A:
  "final_pairs scenario_A = [(S2b ''alice'', 20), (S2b ''bob'', 5)]"
  by (simp add: final_pairs_def scenario_A_def record_pair_def valid_member_def MaxKeySize_def
      S2b_def)

lemma I2b_scoreMax: "I2b scoreMax = [255, 255, 255, 255, 255, 255, 255, 255]"
  by (simp add: I2b_def scoreMax_def)

theorem zscan_order_witness:
  "contents Map.empty (Bconcat [zetKeyPrefix, S2b ''s'']) = []
   \<and> contents Map.empty (Bconcat [zetScorePrefix, S2b ''s'']) = []
   \<and> int (length (final_pairs scenario_A)) \<le> 10
   \<and> (\<exists>r r'. Zscan (zpopulate Map.empty ''s'' scenario_A) ''s'' [] [] 10 = Ret r
      \<and> Zrscan (zpopulate Map.empty ''s'' scenario_A) ''s'' [] [] 10 = Ret r'
      \<and> sorted_wrt entry_less (Reply_List r)
      \<and> set (Reply_List r) = {\<lparr>Key = S2b ''alice'', Value = I2b 20\<rparr>, \<lparr>Key = S2b ''bob'', Value = I2b 5\<rparr>}
      \<and> Reply_List r' = rev (filter below_sentinel (Reply_List r)))"
proof -
  have a: "contents Map.empty (Bconcat [zetKeyPrefix, S2b ''s'']) = []"
    "contents Map.empty (Bconcat [zetScorePrefix, S2b ''s'']) = []"
    by (simp_all add: contents_def)
  have l: "int (length (final_pairs scenario_A)) \<le> 10"
    by (simp add: final_pairs_scenario_A)
  then have l': "(10 :: int) \<le> 0 \<or> int (length (final_pairs scenario_A)) \<le> 10" by simp
  from zscan_order [OF a l'] a l show ?thesis
    by (simp add: final_pairs_scenario_A)
qed

lemma scenario_A_scan:
  "Zscan (zpopulate Map.empty ''s'' scenario_A) ''s'' [] [] 10
     = Ret \<lparr>State = ''ok'', Data = [S2b ''bob'', I2b 5, S2b ''alice'', I2b 20]\<rparr>"
  by (simp add: scenario_A_def Zset_def Zscan_def zset_update_def bytes_Equal_opt_def
      Seek_then_Next_def bolt_defs codec_defs const_defs Let_def I2b_def)

theorem zrscan_sentinel_counterexample:
  "Zscan (fst (Zset Map.empty ''s'' [255] 18446744073709551615)) ''s'' [] [] 10
     = Ret \<lparr>State = ''ok'', Data = [[255], [255, 255, 255, 255, 255, 255, 255, 255]]\<rparr>
   \<and> Zrscan (fst (Zset Map.empty ''s'' [255] 18446744073709551615)) ''s'' [] [] 10
     = Ret \<lparr>State = ''error'', Data = []\<rparr>"
  by (simp add: Zset_def Zscan_def Zrscan_def zset_update_def bytes_Equal_opt_def
      Seek_then_Next_def Last_then_Prev_def bolt_defs codec_defs const_defs Let_def I2b_def)

end
